theory Spec2Isabelle
  imports Complex_Main
begin

section \<open>The game state (game.py)\<close>

text \<open>
  The board is a numpy array of shape (6, 7) holding one-character strings: a blank for an
  empty cell, \<open>R\<close> and \<open>Y\<close> for the two players. Row 0 is the top row, row 5 the bottom one.
  It is modelled as a list of rows; the shape, which numpy fixes at construction, is the
  predicate \<open>board_shape\<close>.
\<close>

type_synonym cell = string
type_synonym board = "cell list list"

definition empty_cell :: cell where
  "empty_cell = '' ''"

definition board_shape :: "board \<Rightarrow> bool" where
  "board_shape b = (length b = 6 \<and> list_all (\<lambda>row. length row = 7) b)"

record Connect4 =
  board :: board
  game_over :: bool
  player_list :: "string list"
  current_turn :: int
  available_moves :: "int list"
  sum_attr :: int

definition board_cells :: "board \<Rightarrow> bool" where
  "board_cells b = list_all (list_all (\<lambda>x. x = empty_cell \<or> x = ''R'' \<or> x = ''Y'')) b"

text \<open>The class invariant set up by the constructor and kept by every method.\<close>

definition wf_state :: "Connect4 \<Rightarrow> bool" where
  "wf_state s = (board_shape (board s) \<and> board_cells (board s) \<and> player_list s = [''R'', ''Y''])"

text \<open>Columns whose top cell is blank, left to right: the loop of \<open>_get_available_moves\<close>.\<close>

definition open_columns :: "board \<Rightarrow> int list" where
  "open_columns b = filter (\<lambda>c. b ! 0 ! nat c = empty_cell) [0..6]"

text \<open>
  \<open>_get_available_moves(self, board=None)\<close>: returns the list of columns and, as a side
  effect on \<open>self\<close>, sets \<open>game_over\<close> when the list is empty.
\<close>

definition get_available_moves :: "Connect4 \<Rightarrow> board option \<Rightarrow> int list \<times> Connect4" where
  "get_available_moves self bopt =
     (let b = (case bopt of None \<Rightarrow> board self | Some b' \<Rightarrow> b');
          moves = open_columns b
      in (moves, if moves = [] then self\<lparr>game_over := True\<rparr> else self))"

definition Connect4_init :: Connect4 where
  "Connect4_init =
     (let b = replicate 6 (replicate 7 empty_cell);
          self = \<lparr>board = b, game_over = False, player_list = [''R'', ''Y''],
                  current_turn = 0, available_moves = [], sum_attr = 0\<rparr>;
          (moves, self1) = get_available_moves self (Some b)
      in self1\<lparr>available_moves := moves, sum_attr := 0\<rparr>)"

definition copy :: "Connect4 \<Rightarrow> Connect4" where
  "copy self = Connect4_init\<lparr>board := board self, game_over := game_over self,
     current_turn := current_turn self, player_list := player_list self,
     available_moves := available_moves self\<rparr>"

text \<open>The lowest blank cell of a column: rows are tried from 5 up to 0.\<close>

definition lowest_empty :: "board \<Rightarrow> nat \<Rightarrow> nat option" where
  "lowest_empty b c = find (\<lambda>r. b ! r ! c = empty_cell) (rev [0..<6])"

definition place :: "board \<Rightarrow> nat \<Rightarrow> nat \<Rightarrow> cell \<Rightarrow> board" where
  "place b r c tok = b[r := (b ! r)[c := tok]]"

definition current_player :: "Connect4 \<Rightarrow> string" where
  "current_player self = player_list self ! nat (current_turn self mod 2)"

definition other_player :: "Connect4 \<Rightarrow> string" where
  "other_player self = player_list self ! nat ((current_turn self + 1) mod 2)"

definition make_move :: "Connect4 \<Rightarrow> int \<Rightarrow> bool \<times> Connect4" where
  "make_move self move =
     (let (moves, self1) = get_available_moves self None;
          self2 = self1\<lparr>available_moves := moves\<rparr>
      in if move \<in> set moves then
           (case lowest_empty (board self2) (nat move) of
              Some r \<Rightarrow> (True, self2\<lparr>board := place (board self2) r (nat move) (current_player self2),
                                       current_turn := current_turn self2 + 1\<rparr>)
            | None \<Rightarrow> (False, self2))
         else (False, self2))"

text \<open>\<open>simulate_move\<close> with its defaults resolved by the caller: a new board, no state change.\<close>

definition simulate_move_on :: "board \<Rightarrow> int \<Rightarrow> cell \<Rightarrow> board" where
  "simulate_move_on b move player =
     (case lowest_empty b (nat move) of
        Some r \<Rightarrow> place b r (nat move) player
      | None \<Rightarrow> b)"

definition simulate_move :: "Connect4 \<Rightarrow> int \<Rightarrow> cell option \<Rightarrow> board option \<Rightarrow> board" where
  "simulate_move self move popt bopt =
     simulate_move_on (case bopt of None \<Rightarrow> board self | Some b \<Rightarrow> b) move
       (case popt of None \<Rightarrow> current_player self | Some p \<Rightarrow> p)"

text \<open>
  \<open>check_win_on_board\<close>: four scans, each a nested loop over the column index (outer) and
  the row index (inner) that returns the first window of four equal non-blank cells.
\<close>

definition horizontal_at :: "board \<Rightarrow> nat \<times> nat \<Rightarrow> bool" where
  "horizontal_at b = (\<lambda>(c, r). b ! r ! c = b ! r ! (c + 1) \<and> b ! r ! (c + 1) = b ! r ! (c + 2)
      \<and> b ! r ! (c + 2) = b ! r ! (c + 3) \<and> b ! r ! c \<noteq> empty_cell)"

definition vertical_at :: "board \<Rightarrow> nat \<times> nat \<Rightarrow> bool" where
  "vertical_at b = (\<lambda>(c, r). b ! r ! c = b ! (r + 1) ! c \<and> b ! (r + 1) ! c = b ! (r + 2) ! c
      \<and> b ! (r + 2) ! c = b ! (r + 3) ! c \<and> b ! r ! c \<noteq> empty_cell)"

definition pos_slope_at :: "board \<Rightarrow> nat \<times> nat \<Rightarrow> bool" where
  "pos_slope_at b = (\<lambda>(c, r). b ! r ! c = b ! (r + 1) ! (c + 1)
      \<and> b ! (r + 1) ! (c + 1) = b ! (r + 2) ! (c + 2)
      \<and> b ! (r + 2) ! (c + 2) = b ! (r + 3) ! (c + 3) \<and> b ! r ! c \<noteq> empty_cell)"

definition neg_slope_at :: "board \<Rightarrow> nat \<times> nat \<Rightarrow> bool" where
  "neg_slope_at b = (\<lambda>(c, r). b ! r ! c = b ! (r - 1) ! (c + 1)
      \<and> b ! (r - 1) ! (c + 1) = b ! (r - 2) ! (c + 2)
      \<and> b ! (r - 2) ! (c + 2) = b ! (r - 3) ! (c + 3) \<and> b ! r ! c \<noteq> empty_cell)"

definition scan :: "board \<Rightarrow> (nat \<times> nat \<Rightarrow> bool) \<Rightarrow> nat list \<Rightarrow> nat list \<Rightarrow> cell option" where
  "scan b hit cols rows = map_option (\<lambda>(c, r). b ! r ! c) (find hit (List.product cols rows))"

definition check_win_on_board :: "board \<Rightarrow> cell option" where
  "check_win_on_board b =
     (case scan b (horizontal_at b) [0..<4] [0..<6] of Some w \<Rightarrow> Some w | None \<Rightarrow>
     (case scan b (vertical_at b) [0..<7] [0..<3] of Some w \<Rightarrow> Some w | None \<Rightarrow>
     (case scan b (pos_slope_at b) [0..<4] [0..<3] of Some w \<Rightarrow> Some w | None \<Rightarrow>
      scan b (neg_slope_at b) [0..<4] [3..<6])))"

text \<open>
  \<open>_check_winstate\<close>: the winner when there is one (and then \<open>game_over\<close> is set), else
  \<open>False\<close>, modelled as \<open>None\<close>. Python's \<open>if winner\<close> is false for \<open>None\<close> and for the
  empty string.
\<close>

definition check_winstate :: "Connect4 \<Rightarrow> cell option \<times> Connect4" where
  "check_winstate self =
     (case check_win_on_board (board self) of
        Some w \<Rightarrow> if w \<noteq> [] then (Some w, self\<lparr>game_over := True\<rparr>) else (None, self)
      | None \<Rightarrow> (None, self))"

subsection \<open>The specification's notion of a winning line\<close>

text \<open>
  Following the specification's words: a token has a line when it occupies four contiguous
  cells of one row, one column or one diagonal of either slope of the 6 by 7 grid.
\<close>

definition has_line :: "board \<Rightarrow> cell \<Rightarrow> bool" where
  "has_line b t =
     ((\<exists>r\<in>{0..<6}. \<exists>c\<in>{0..<4}. \<forall>k\<in>{0..<4}. b ! r ! (c + k) = t) \<or>
      (\<exists>r\<in>{0..<3}. \<exists>c\<in>{0..<7}. \<forall>k\<in>{0..<4}. b ! (r + k) ! c = t) \<or>
      (\<exists>r\<in>{0..<3}. \<exists>c\<in>{0..<4}. \<forall>k\<in>{0..<4}. b ! (r + k) ! (c + k) = t) \<or>
      (\<exists>r\<in>{3..<6}. \<exists>c\<in>{0..<4}. \<forall>k\<in>{0..<4}. b ! (r - k) ! (c + k) = t))"

definition winning_line :: "board \<Rightarrow> bool" where
  "winning_line b = (\<exists>t. t \<noteq> empty_cell \<and> has_line b t)"

section \<open>The search tree (mcts.py)\<close>

text \<open>
  Nodes refer to one another (\<open>parent\<close>, \<open>children\<close>) and are updated in place, so the tree
  lives in a store: a list of nodes in which a node's address is its index. The root is at
  address 0 and a new node is allocated at the end. Each node owns its own game state.
  The field \<open>wins\<close> only ever receives 0, 1 and 0.5, so it holds an exact number.
\<close>

datatype py_error = IndexError | ValueError

record MCTSNode =
  state :: Connect4
  parent :: "nat option"
  move :: "int option"
  children :: "nat list"
  wins :: real
  visits :: nat
  untried_moves :: "int list"
  player_just_moved :: string

type_synonym tree = "MCTSNode list"

text \<open>
  \<open>MCTSNode.__init__\<close>: both \<open>_check_winstate\<close> and \<open>_get_available_moves\<close> act on the state
  object handed in, which the node keeps.
\<close>

definition MCTSNode_init :: "Connect4 \<Rightarrow> nat option \<Rightarrow> int option \<Rightarrow> MCTSNode" where
  "MCTSNode_init st par mv =
     (let (winner, st1) = check_winstate st;
          (untried, st2) = (if winner \<noteq> None then ([], st1) else get_available_moves st1 None)
      in \<lparr>state = st2, parent = par, move = mv, children = [], wins = 0, visits = 0,
          untried_moves = untried,
          player_just_moved = player_list st2 ! nat ((current_turn st2 - 1) mod 2)\<rparr>)"

text \<open>
  Floating point. The UCT score is computed in Python floats (IEEE doubles), whose rounding
  and overflow are not those of the real numbers. The search takes the float operations the
  score uses as a parameter, a record over some type \<open>'f\<close> of floats, so that what is proved
  of it holds for every float arithmetic; \<open>py_double\<close> below is the instance for IEEE
  doubles. \<open>fl_num\<close> converts an exact number (an int, or the exact \<open>wins\<close>) to a float,
  \<open>fl_inf\<close> is \<open>float('inf')\<close>, and \<open>fl_less\<close> is the comparison \<open><\<close> that sorting uses.
\<close>

record 'f pyfloat =
  fl_num :: "real \<Rightarrow> 'f"
  fl_add :: "'f \<Rightarrow> 'f \<Rightarrow> 'f"
  fl_mul :: "'f \<Rightarrow> 'f \<Rightarrow> 'f"
  fl_div :: "'f \<Rightarrow> 'f \<Rightarrow> 'f"
  fl_sqrt :: "'f \<Rightarrow> 'f"
  fl_log :: "'f \<Rightarrow> 'f"
  fl_inf :: "'f"
  fl_less :: "'f \<Rightarrow> 'f \<Rightarrow> bool"

text \<open>
  The sort key of \<open>uct_select_child\<close>, with the operations in the order in which Python
  evaluates them. (\<open>math.log\<close> at 0 raises; \<open>uct_select_child\<close> below tests for it. The
  logarithm of a positive int is not negative, so \<open>math.sqrt\<close> does not raise.)
\<close>

definition uct_key :: "'f pyfloat \<Rightarrow> 'f \<Rightarrow> MCTSNode \<Rightarrow> MCTSNode \<Rightarrow> 'f" where
  "uct_key fl C self c =
     (if visits c > 0
      then fl_add fl
             (fl_div fl (fl_num fl (wins c)) (fl_num fl (real (visits c))))
             (fl_mul fl C
                (fl_sqrt fl
                   (fl_div fl (fl_log fl (fl_num fl (real (visits self))))
                              (fl_num fl (real (visits c))))))
      else fl_inf fl)"

text \<open>
  \<open>sorted(xs, key=f)\<close>: Python's sort is stable and compares keys with \<open><\<close> only. On keys
  that \<open><\<close> orders (floats other than NaN) every stable sort yields the same list, the one
  this insertion sort builds: an element goes before the first element whose key is not
  smaller than its own.
\<close>

fun insort_by :: "('k \<Rightarrow> 'k \<Rightarrow> bool) \<Rightarrow> ('a \<Rightarrow> 'k) \<Rightarrow> 'a \<Rightarrow> 'a list \<Rightarrow> 'a list" where
  "insort_by lt f x [] = [x]"
| "insort_by lt f x (y # ys) = (if lt (f y) (f x) then y # insort_by lt f x ys else x # y # ys)"

definition sorted_by :: "('k \<Rightarrow> 'k \<Rightarrow> bool) \<Rightarrow> ('a \<Rightarrow> 'k) \<Rightarrow> 'a list \<Rightarrow> 'a list" where
  "sorted_by lt f xs = foldr (insort_by lt f) xs []"

text \<open>
  \<open>sorted(...)[-1]\<close>. \<open>math.log\<close> raises \<open>ValueError\<close> at 0, which the key reaches when the
  node is unvisited and some child is visited; indexing the sorted list raises \<open>IndexError\<close>
  when there is no child.
\<close>

definition uct_select_child :: "'f pyfloat \<Rightarrow> tree \<Rightarrow> nat \<Rightarrow> 'f \<Rightarrow> py_error + nat" where
  "uct_select_child fl t self C =
     (if visits (t ! self) = 0 \<and> (\<exists>c\<in>set (children (t ! self)). visits (t ! c) > 0)
      then Inl ValueError
      else (case sorted_by (fl_less fl) (\<lambda>c. uct_key fl C (t ! self) (t ! c))
                  (children (t ! self)) of
              [] \<Rightarrow> Inl IndexError
            | s # ss \<Rightarrow> Inr (last (s # ss))))"

text \<open>\<open>add_child\<close>: \<open>list.remove\<close> raises \<open>ValueError\<close> when the move is not in the list.\<close>

definition add_child :: "tree \<Rightarrow> nat \<Rightarrow> int \<Rightarrow> Connect4 \<Rightarrow> py_error + tree \<times> nat" where
  "add_child t self mv st =
     (let node = MCTSNode_init (copy st) (Some self) (Some mv);
          addr = length t
      in if mv \<notin> set (untried_moves (t ! self)) then Inl ValueError
         else Inr (t[self := (t ! self)\<lparr>untried_moves := remove1 mv (untried_moves (t ! self)),
                                        children := children (t ! self) @ [addr]\<rparr>] @ [node],
                   addr))"

definition update :: "MCTSNode \<Rightarrow> real \<Rightarrow> MCTSNode" where
  "update self r = self\<lparr>visits := visits self + 1, wins := wins self + r\<rparr>"

section \<open>The search (mcts.py, class MCTS)\<close>

text \<open>
  \<open>random.choice\<close> draws from a stream of numbers \<open>rnd\<close>, read at a counter that every draw
  advances. Both call sites test the list for emptiness first.
\<close>

definition choice :: "(nat \<Rightarrow> nat) \<Rightarrow> nat \<Rightarrow> 'a list \<Rightarrow> 'a" where
  "choice rnd k xs = xs ! (rnd k mod length xs)"

record 'f MCTS =
  simulations :: nat
  exploration_constant :: "'f"

text \<open>
  \<open>state.make_move(node.move)\<close>: the root's move is \<open>None\<close>, which is in no list of columns;
  the column -1 stands for it.
\<close>

definition make_move_of :: "Connect4 \<Rightarrow> int option \<Rightarrow> bool \<times> Connect4" where
  "make_move_of st mv = make_move st (case mv of Some m \<Rightarrow> m | None \<Rightarrow> - 1)"

text \<open>1. Selection: the first \<open>while\<close> loop of an iteration.\<close>

partial_function (option) selection ::
  "'f pyfloat \<Rightarrow> 'f \<Rightarrow> tree \<Rightarrow> nat \<Rightarrow> Connect4 \<Rightarrow> (py_error + nat \<times> Connect4) option" where
  "selection fl C t node st =
     (if untried_moves (t ! node) = [] \<and> children (t ! node) \<noteq> [] then
        (case uct_select_child fl t node C of
           Inl e \<Rightarrow> Some (Inl e)
         | Inr c \<Rightarrow> selection fl C t c (snd (make_move_of st (move (t ! c)))))
      else Some (Inr (node, st)))"

text \<open>2. Expansion.\<close>

definition expansion ::
  "(nat \<Rightarrow> nat) \<Rightarrow> tree \<Rightarrow> nat \<Rightarrow> Connect4 \<Rightarrow> nat \<Rightarrow> py_error + tree \<times> nat \<times> Connect4 \<times> nat" where
  "expansion rnd t node st k =
     (if untried_moves (t ! node) \<noteq> [] then
        (let m = choice rnd k (untried_moves (t ! node));
             st1 = snd (make_move st m)
         in case add_child t node m st1 of
              Inl e \<Rightarrow> Inl e
            | Inr (t1, child) \<Rightarrow> Inr (t1, child, st1, k + 1))
      else Inr (t, node, st, k))"

text \<open>3. Simulation (rollout): the second \<open>while\<close> loop.\<close>

partial_function (option) rollout :: "(nat \<Rightarrow> nat) \<Rightarrow> Connect4 \<Rightarrow> nat \<Rightarrow> (Connect4 \<times> nat) option" where
  "rollout rnd st k =
     (if game_over st then Some (st, k)
      else (let (legal_moves, st1) = get_available_moves st None
            in if legal_moves = [] then Some (st1, k)
               else rollout rnd
                      (snd (check_winstate (snd (make_move st1 (choice rnd k legal_moves)))))
                      (k + 1)))"

text \<open>4. Backpropagation: the walk up the parent references.\<close>

definition credit :: "MCTSNode \<Rightarrow> cell option \<Rightarrow> real" where
  "credit node winner =
     (case winner of
        Some w \<Rightarrow> if player_just_moved node = w then 1 else 0
      | None \<Rightarrow> 1 / 2)"

partial_function (option) backpropagate :: "tree \<Rightarrow> nat option \<Rightarrow> cell option \<Rightarrow> tree option" where
  "backpropagate t node winner =
     (case node of
        None \<Rightarrow> Some t
      | Some n \<Rightarrow> backpropagate (t[n := update (t ! n) (credit (t ! n) winner)]) (parent (t ! n)) winner)"

text \<open>The unfolding equations of the three loops serve as code equations.\<close>

declare selection.simps [code]
declare rollout.simps [code]
declare backpropagate.simps [code]

text \<open>
  One pass of the main loop, on the tree and the draw counter. \<open>descend\<close> is its first half,
  selection and expansion: it yields the tree, the node and the working state with which the
  rollout starts.
\<close>

definition descend ::
  "'f pyfloat \<Rightarrow> 'f \<Rightarrow> (nat \<Rightarrow> nat) \<Rightarrow> Connect4 \<Rightarrow> tree \<times> nat
     \<Rightarrow> (py_error + tree \<times> nat \<times> Connect4 \<times> nat) option" where
  "descend fl C rnd root_state = (\<lambda>(t, k).
     (case selection fl C t 0 (copy root_state) of
        None \<Rightarrow> None
      | Some (Inl e) \<Rightarrow> Some (Inl e)
      | Some (Inr (node, st)) \<Rightarrow> Some (expansion rnd t node st k)))"

definition simulate_once ::
  "'f pyfloat \<Rightarrow> 'f \<Rightarrow> (nat \<Rightarrow> nat) \<Rightarrow> Connect4 \<Rightarrow> tree \<times> nat
     \<Rightarrow> (py_error + tree \<times> nat) option" where
  "simulate_once fl C rnd root_state tk =
     (case descend fl C rnd root_state tk of
        None \<Rightarrow> None
      | Some (Inl e) \<Rightarrow> Some (Inl e)
      | Some (Inr (t1, node1, st1, k1)) \<Rightarrow>
         (case rollout rnd st1 k1 of
            None \<Rightarrow> None
          | Some (st2, k2) \<Rightarrow>
             (case backpropagate t1 (Some node1) (fst (check_winstate st2)) of
                None \<Rightarrow> None
              | Some t2 \<Rightarrow> Some (Inr (t2, k2)))))"

text \<open>
  The rollout loop reaches its \<open>make_move\<close> on a working state exactly when \<open>game_over\<close>
  is not set and some column is open.
\<close>

definition rollout_moves :: "Connect4 \<Rightarrow> bool" where
  "rollout_moves st = (\<not> game_over st \<and> open_columns (board st) \<noteq> [])"

fun mcts_loop ::
  "'f pyfloat \<Rightarrow> nat \<Rightarrow> 'f \<Rightarrow> (nat \<Rightarrow> nat) \<Rightarrow> Connect4 \<Rightarrow> tree \<times> nat
     \<Rightarrow> (py_error + tree \<times> nat) option" where
  "mcts_loop fl 0 C rnd root_state tk = Some (Inr tk)"
| "mcts_loop fl (Suc n) C rnd root_state tk =
     (case simulate_once fl C rnd root_state tk of
        None \<Rightarrow> None
      | Some (Inl e) \<Rightarrow> Some (Inl e)
      | Some (Inr tk') \<Rightarrow> mcts_loop fl n C rnd root_state tk')"

text \<open>The last line of \<open>get_best_move\<close>: the move of the most visited child of the root.\<close>

definition most_visited :: "tree \<Rightarrow> py_error + int option" where
  "most_visited t =
     (case sort_key (\<lambda>c. visits (t ! c)) (children (t ! 0)) of
        [] \<Rightarrow> Inl IndexError
      | s # ss \<Rightarrow> Inr (move (t ! last (s # ss))))"

text \<open>
  The block check: the second \<open>for\<close> loop over the legal moves, with \<open>safe_moves\<close> as the
  accumulator. \<open>_get_available_moves(sim_board)\<close> is called on \<open>root_state\<close> itself.
\<close>

fun block_check :: "Connect4 \<Rightarrow> cell \<Rightarrow> int list \<Rightarrow> int list \<Rightarrow> int list \<times> Connect4" where
  "block_check rs human safe_moves [] = (safe_moves, rs)"
| "block_check rs human safe_moves (mv # rest) =
     (let sim_board = simulate_move rs mv None None;
          (humans_legal_moves, rs1) = get_available_moves rs (Some sim_board);
          opponent_can_win =
            list_ex (\<lambda>opp. check_win_on_board (simulate_move rs1 opp (Some human) (Some sim_board))
                             = Some human) humans_legal_moves
      in block_check rs1 human (if opponent_can_win then safe_moves else safe_moves @ [mv]) rest)"

text \<open>
  \<open>get_best_move\<close> up to the main loop: either an early return, or the root node the loop
  starts from. The root state is threaded through the calls made on it.
\<close>

datatype early = Return "int option" | Search

definition pre_search :: "Connect4 \<Rightarrow> early \<times> MCTSNode \<times> Connect4" where
  "pre_search root_state =
     (let root_node = MCTSNode_init (copy root_state) None None
      in if untried_moves root_node = [] then (Return None, root_node, root_state)
         else if length (untried_moves root_node) = 1
           then (Return (Some (untried_moves root_node ! 0)), root_node, root_state)
         else
           (let (legal_moves, rs1) = get_available_moves root_state None;
                ai_player = current_player rs1;
                human_player = other_player rs1
            in case find (\<lambda>mv. check_win_on_board (simulate_move rs1 mv None None) = Some ai_player)
                         legal_moves of
                 Some mv \<Rightarrow> (Return (Some mv), root_node, rs1)
               | None \<Rightarrow>
                  (let (safe_moves, rs2) = block_check rs1 human_player [] legal_moves;
                       common_safe = filter (\<lambda>m. m \<in> set safe_moves) (untried_moves root_node)
                   in (Search,
                       if safe_moves \<noteq> [] \<and> common_safe \<noteq> []
                       then root_node\<lparr>untried_moves := common_safe\<rparr> else root_node,
                       rs2))))"

text \<open>
  \<open>get_best_move\<close>: what the caller observes is the value returned (or the exception
  raised) and the root state object afterwards.
\<close>

definition get_best_move ::
  "'f pyfloat \<Rightarrow> 'f MCTS \<Rightarrow> (nat \<Rightarrow> nat) \<Rightarrow> Connect4
     \<Rightarrow> ((py_error + int option) \<times> Connect4) option" where
  "get_best_move fl self rnd root_state =
     (case pre_search root_state of
        (Return r, root_node, rs) \<Rightarrow> Some (Inr r, rs)
      | (Search, root_node, rs) \<Rightarrow>
          (case mcts_loop fl (simulations self) (exploration_constant self) rnd rs
                  ([root_node], 0) of
             None \<Rightarrow> None
           | Some (Inl e) \<Rightarrow> Some (Inl e, rs)
           | Some (Inr (t, k)) \<Rightarrow> Some (most_visited t, rs)))"

subsection \<open>The specification's notions of the shortcuts\<close>

text \<open>
  Following the specification's words: a move wins immediately when the board it produces
  holds a line of the side to move; a move is unsafe when some reply of the opponent,
  simulated on top of it, holds a line of the opponent.
\<close>

definition immediate_win :: "Connect4 \<Rightarrow> int \<Rightarrow> bool" where
  "immediate_win s m = has_line (simulate_move s m None None) (current_player s)"

definition unsafe_move :: "Connect4 \<Rightarrow> int \<Rightarrow> bool" where
  "unsafe_move s m =
     (\<exists>opp\<in>set (open_columns (simulate_move s m None None)).
        has_line (simulate_move s opp (Some (other_player s)) (Some (simulate_move s m None None)))
                 (other_player s))"

definition safe_moves_of :: "Connect4 \<Rightarrow> int list" where
  "safe_moves_of s = filter (\<lambda>m. \<not> unsafe_move s m) (open_columns (board s))"

section \<open>Python floats as IEEE doubles\<close>

text \<open>
  An instance of the float operations: IEEE 754 binary64 with rounding to nearest, ties to
  even, which is the arithmetic of Python's \<open>float\<close>. A double is a finite real, an
  infinity or NaN; the two zeros are not told apart (they compare equal, and nothing here
  divides by zero).
\<close>

datatype double = Fin real | PInf | NInf | NaN

text \<open>Rounding a real to an integer, a tie going to the even neighbour.\<close>

definition rne :: "real \<Rightarrow> int" where
  "rne x = (let n = \<lfloor>x\<rfloor>; d = x - of_int n
            in if d < 1 / 2 then n else if 1 / 2 < d then n + 1
               else if even n then n else n + 1)"

text \<open>
  The spacing of the doubles around \<open>x\<close>: 53 significant bits, and the fixed spacing
  \<open>2 ** -1074\<close> of the subnormal range below \<open>2 ** -1022\<close>.
\<close>

definition ulp :: "real \<Rightarrow> real" where
  "ulp x = 2 powr of_int (max \<lfloor>log 2 \<bar>x\<bar>\<rfloor> (- 1022) - 52)"

definition rnd53 :: "real \<Rightarrow> real" where
  "rnd53 x = (if x = 0 then 0 else of_int (rne (x / ulp x)) * ulp x)"

text \<open>A result that rounds to \<open>2 ** 1024\<close> or beyond overflows to an infinity.\<close>

definition overflow_threshold :: real where
  "overflow_threshold = 2 powr 1024"

definition to_double :: "real \<Rightarrow> double" where
  "to_double x = (if overflow_threshold \<le> rnd53 x then PInf
                  else if rnd53 x \<le> - overflow_threshold then NInf
                  else Fin (rnd53 x))"

text \<open>
  The operations of the key. \<open>+\<close>, \<open>*\<close>, \<open>/\<close> and \<open>math.sqrt\<close> round the exact result;
  \<open>math.log\<close> is taken to do so as well. Where Python raises instead of returning (a zero
  divisor, \<open>math.sqrt\<close> of a negative number, \<open>math.log\<close> of a number that is not positive)
  the operation here yields NaN: the key does not reach these cases, since it divides by a
  positive visit count, \<open>uct_select_child\<close> tests for \<open>math.log(0)\<close>, and the logarithm of a
  positive int is not negative.
\<close>

fun double_add :: "double \<Rightarrow> double \<Rightarrow> double" where
  "double_add (Fin x) (Fin y) = to_double (x + y)"
| "double_add NaN _ = NaN"
| "double_add _ NaN = NaN"
| "double_add PInf NInf = NaN"
| "double_add NInf PInf = NaN"
| "double_add PInf _ = PInf"
| "double_add _ PInf = PInf"
| "double_add NInf _ = NInf"
| "double_add _ NInf = NInf"

fun inf_signed :: "bool \<Rightarrow> double" where
  "inf_signed True = PInf"
| "inf_signed False = NInf"

fun double_mul :: "double \<Rightarrow> double \<Rightarrow> double" where
  "double_mul (Fin x) (Fin y) = to_double (x * y)"
| "double_mul NaN _ = NaN"
| "double_mul _ NaN = NaN"
| "double_mul (Fin x) PInf = (if x = 0 then NaN else inf_signed (0 < x))"
| "double_mul (Fin x) NInf = (if x = 0 then NaN else inf_signed (x < 0))"
| "double_mul PInf (Fin y) = (if y = 0 then NaN else inf_signed (0 < y))"
| "double_mul NInf (Fin y) = (if y = 0 then NaN else inf_signed (y < 0))"
| "double_mul PInf PInf = PInf"
| "double_mul PInf NInf = NInf"
| "double_mul NInf PInf = NInf"
| "double_mul NInf NInf = PInf"

fun double_div :: "double \<Rightarrow> double \<Rightarrow> double" where
  "double_div (Fin x) (Fin y) = (if y = 0 then NaN else to_double (x / y))"
| "double_div NaN _ = NaN"
| "double_div _ NaN = NaN"
| "double_div (Fin x) _ = Fin 0"
| "double_div PInf (Fin y) = inf_signed (0 \<le> y)"
| "double_div NInf (Fin y) = inf_signed (y < 0)"
| "double_div _ _ = NaN"

fun double_sqrt :: "double \<Rightarrow> double" where
  "double_sqrt (Fin x) = (if 0 \<le> x then to_double (sqrt x) else NaN)"
| "double_sqrt PInf = PInf"
| "double_sqrt _ = NaN"

fun double_log :: "double \<Rightarrow> double" where
  "double_log (Fin x) = (if 0 < x then to_double (ln x) else NaN)"
| "double_log PInf = PInf"
| "double_log _ = NaN"

fun double_less :: "double \<Rightarrow> double \<Rightarrow> bool" where
  "double_less (Fin x) (Fin y) = (x < y)"
| "double_less NaN _ = False"
| "double_less _ NaN = False"
| "double_less _ NInf = False"
| "double_less NInf _ = True"
| "double_less PInf _ = False"
| "double_less _ PInf = True"

definition py_double :: "double pyfloat" where
  "py_double = \<lparr>fl_num = to_double, fl_add = double_add, fl_mul = double_mul,
                 fl_div = double_div, fl_sqrt = double_sqrt, fl_log = double_log,
                 fl_inf = PInf, fl_less = double_less\<rparr>"

text \<open>
  The comparison \<open>lt\<close> is a strict weak order on the keys \<open>K\<close>: asymmetric, and a key that is
  neither below nor above another sits with it in the order. The comparison of floats is
  one as long as no key is NaN.
\<close>

definition weak_order_on :: "('k \<Rightarrow> 'k \<Rightarrow> bool) \<Rightarrow> 'k set \<Rightarrow> bool" where
  "weak_order_on lt K =
     ((\<forall>a\<in>K. \<forall>b\<in>K. lt a b \<longrightarrow> \<not> lt b a) \<and>
      (\<forall>a\<in>K. \<forall>b\<in>K. \<forall>c\<in>K. lt a c \<longrightarrow> lt a b \<or> lt b c))"

section \<open>Invariants of the search\<close>

text \<open>The number of blank cells of a board: what a rollout uses up.\<close>

definition blanks :: "board \<Rightarrow> nat" where
  "blanks b = sum_list (map (\<lambda>row. length (filter (\<lambda>x. x = empty_cell) row)) b)"

text \<open>The sum of the visit counts of a node's children.\<close>

definition child_visits :: "tree \<Rightarrow> nat \<Rightarrow> nat" where
  "child_visits t n = sum_list (map (\<lambda>c. visits (t ! c)) (children (t ! n)))"

text \<open>
  The store holds a tree rooted at address 0: every other node has a parent at a smaller
  address that lists it as a child, and the children of a node are distinct, allocated,
  and point back to it.
\<close>

definition tree_shape :: "tree \<Rightarrow> bool" where
  "tree_shape t =
     (t \<noteq> [] \<and> parent (t ! 0) = None
      \<and> (\<forall>i<length t. 0 < i \<longrightarrow>
            (\<exists>p<i. parent (t ! i) = Some p \<and> i \<in> set (children (t ! p))))
      \<and> (\<forall>i<length t. distinct (children (t ! i))
            \<and> (\<forall>c\<in>set (children (t ! i)). c < length t \<and> parent (t ! c) = Some i)))"

text \<open>The root can always be expanded or descended from.\<close>

definition root_live :: "tree \<Rightarrow> bool" where
  "root_live t = (untried_moves (t ! 0) \<noteq> [] \<or> children (t ! 0) \<noteq> [])"

text \<open>
  Between iterations: the root has been visited as often as its children together, and
  every other node more often than its children together.
\<close>

definition search_inv :: "tree \<Rightarrow> bool" where
  "search_inv t =
     (tree_shape t \<and> root_live t
      \<and> visits (t ! 0) = child_visits t 0
      \<and> (\<forall>i<length t. 0 < i \<longrightarrow> child_visits t i < visits (t ! i)))"

text \<open>
  During backpropagation, when node \<open>x\<close> is the next to be updated: the nodes below it on
  the path have been updated, those from \<open>x\<close> upwards have not.
\<close>

definition pending :: "tree \<Rightarrow> nat \<Rightarrow> bool" where
  "pending t x =
     (tree_shape t \<and> root_live t \<and> x < length t
      \<and> (if x = 0 then visits (t ! 0) + 1 = child_visits t 0
          else visits (t ! 0) = child_visits t 0 \<and> child_visits t x \<le> visits (t ! x))
      \<and> (\<forall>i<length t. 0 < i \<and> i \<noteq> x \<longrightarrow> child_visits t i < visits (t ! i)))"

section \<open>Concrete positions\<close>

text \<open>A board whose bottom row starts with four \<open>R\<close>, over three \<open>Y\<close> in the row above.\<close>

definition row_win_board :: board where
  "row_win_board =
     replicate 4 (replicate 7 empty_cell) @
     [[''Y'', ''Y'', ''Y'', '' '', '' '', '' '', '' ''],
      [''R'', ''R'', ''R'', ''R'', '' '', '' '', '' '']]"

text \<open>A finished game on that board: \<open>R\<close> has won with the seventh token.\<close>

definition won_root :: Connect4 where
  "won_root = \<lparr>board = row_win_board, game_over = False, player_list = [''R'', ''Y''],
                current_turn = 7, available_moves = [0, 1, 2, 3, 4, 5, 6], sum_attr = 0\<rparr>"

text \<open>
  The board after the moves 0, 1, 0, 1, 0, 1, 0, 1 of a new game: \<open>R\<close> fills four cells of
  column 0 and \<open>Y\<close> four cells of column 1.
\<close>

definition two_lines_moves :: "int list" where
  "two_lines_moves = [0, 1, 0, 1, 0, 1, 0, 1]"

definition two_lines_board :: board where
  "two_lines_board =
     replicate 2 (replicate 7 empty_cell) @
     replicate 4 [''R'', ''Y'', '' '', '' '', '' '', '' '', '' '']"

text \<open>
  \<open>R\<close> to move with three in the bottom row and column 3 open: the specification's example
  of an immediate win.
\<close>

definition three_root :: Connect4 where
  "three_root =
     \<lparr>board = replicate 4 (replicate 7 empty_cell) @
        [[''Y'', ''Y'', ''Y'', '' '', '' '', '' '', '' ''],
         [''R'', ''R'', ''R'', '' '', '' '', '' '', '' '']],
      game_over = False, player_list = [''R'', ''Y''], current_turn = 6,
      available_moves = [0, 1, 2, 3, 4, 5, 6], sum_attr = 0\<rparr>"

text \<open>\<open>R\<close> to move against three \<open>Y\<close> in the bottom row: only column 3 is safe.\<close>

definition block_root :: Connect4 where
  "block_root =
     \<lparr>board = replicate 4 (replicate 7 empty_cell) @
        [[''R'', ''R'', '' '', '' '', '' '', '' '', '' ''],
         [''Y'', ''Y'', ''Y'', '' '', ''R'', '' '', '' '']],
      game_over = False, player_list = [''R'', ''Y''], current_turn = 6,
      available_moves = [0, 1, 2, 3, 4, 5, 6], sum_attr = 0\<rparr>"

text \<open>The state reached from a new game by six calls of \<open>make_move(0)\<close>: column 0 is full.\<close>

definition column0_full :: Connect4 where
  "column0_full =
     \<lparr>board =
        [[''Y'', '' '', '' '', '' '', '' '', '' '', '' ''],
         [''R'', '' '', '' '', '' '', '' '', '' '', '' ''],
         [''Y'', '' '', '' '', '' '', '' '', '' '', '' ''],
         [''R'', '' '', '' '', '' '', '' '', '' '', '' ''],
         [''Y'', '' '', '' '', '' '', '' '', '' '', '' ''],
         [''R'', '' '', '' '', '' '', '' '', '' '', '' '']],
      game_over = False, player_list = [''R'', ''Y''], current_turn = 6,
      available_moves = [0, 1, 2, 3, 4, 5, 6], sum_attr = 0\<rparr>"

text \<open>
  A late position, \<open>R\<close> to move, with one free cell in column 0 and three in column 2,
  reached from a new game by \<open>late_moves\<close>.
\<close>

definition late_moves :: "int list" where
  "late_moves = [0, 1, 0, 0, 4, 0, 4, 0, 4, 1, 1, 1, 1, 2, 1, 3, 2, 2, 3, 3, 3, 3, 5, 4, 4, 5, 4,
                 6, 5, 6, 5, 5, 5, 6, 6, 6, 6, 3]"

definition late_root :: Connect4 where
  "late_root =
     \<lparr>board =
        [['' '', ''R'', '' '', ''Y'', ''R'', ''R'', ''R''],
         [''Y'', ''R'', '' '', ''Y'', ''R'', ''Y'', ''Y''],
         [''Y'', ''Y'', '' '', ''R'', ''Y'', ''R'', ''R''],
         [''Y'', ''R'', ''Y'', ''Y'', ''R'', ''R'', ''Y''],
         [''R'', ''Y'', ''R'', ''R'', ''R'', ''Y'', ''Y''],
         [''R'', ''Y'', ''Y'', ''Y'', ''R'', ''R'', ''Y'']],
      game_over = False, player_list = [''R'', ''Y''], current_turn = 38,
      available_moves = [0, 2, 3], sum_attr = 0\<rparr>"

text \<open>
  The working state of the third iteration on \<open>late_root\<close> when its rollout starts: the
  moves 0, 2, 2 have been made, \<open>R\<close> holds the diagonal from row 0, column 1 to row 3,
  column 4, and \<open>game_over\<close> is not set.
\<close>

definition late_won_state :: Connect4 where
  "late_won_state =
     \<lparr>board =
        [[''R'', ''R'', '' '', ''Y'', ''R'', ''R'', ''R''],
         [''Y'', ''R'', ''R'', ''Y'', ''R'', ''Y'', ''Y''],
         [''Y'', ''Y'', ''Y'', ''R'', ''Y'', ''R'', ''R''],
         [''Y'', ''R'', ''Y'', ''Y'', ''R'', ''R'', ''Y''],
         [''R'', ''Y'', ''R'', ''R'', ''R'', ''Y'', ''Y''],
         [''R'', ''Y'', ''Y'', ''Y'', ''R'', ''R'', ''Y'']],
      game_over = False, player_list = [''R'', ''Y''], current_turn = 41,
      available_moves = [2], sum_attr = 0\<rparr>"

text \<open>
  Nodes for \<open>uct_select_child\<close>, given by their children, wins and visits. In
  \<open>overflow_tree\<close> the node at address 0 has 1000 visits, an unvisited child at address 1 and
  a child of one visit and no win at address 2; \<open>overflow_C\<close> is the exploration constant
  \<open>2.0 ** 1023\<close>. In \<open>unvisited_tree\<close> the node at address 0 has one visit, an unvisited
  child at address 1 and a child of one visit and one win at address 2.
\<close>

definition uct_node :: "nat option \<Rightarrow> nat list \<Rightarrow> real \<Rightarrow> nat \<Rightarrow> MCTSNode" where
  "uct_node par cs w v =
     (MCTSNode_init Connect4_init par None)\<lparr>children := cs, wins := w, visits := v\<rparr>"

definition overflow_tree :: tree where
  "overflow_tree = [uct_node None [1, 2] 0 1000, uct_node (Some 0) [] 0 0,
                    uct_node (Some 0) [] 0 1]"

definition overflow_C :: double where
  "overflow_C = Fin (2 powr 1023)"

definition unvisited_tree :: tree where
  "unvisited_tree = [uct_node None [1, 2] 1 1, uct_node (Some 0) [] 0 0,
                     uct_node (Some 0) [] 1 1]"

section \<open>Boards and placement\<close>

lemma find_Some_memD: "find P xs = Some x \<Longrightarrow> x \<in> set xs \<and> P x"
  by (induction xs) (auto split: if_splits)

lemma board_shapeD:
  "board_shape b \<Longrightarrow> length b = 6"
  "board_shape b \<Longrightarrow> r < 6 \<Longrightarrow> length (b ! r) = 7"
  by (auto simp: board_shape_def list_all_length)

lemma board_cellsD:
  "board_cells b \<Longrightarrow> r < length b \<Longrightarrow> c < length (b ! r) \<Longrightarrow>
     b ! r ! c = empty_cell \<or> b ! r ! c = ''R'' \<or> b ! r ! c = ''Y''"
  by (auto simp: board_cells_def list_all_length)

lemma place_row:
  "r' < length b \<Longrightarrow> place b r c tok ! r' = (if r' = r then (b ! r)[c := tok] else b ! r')"
proof (cases "r < length b")
  case True
  assume "r' < length b"
  with True show ?thesis by (simp add: place_def nth_list_update)
next
  case False
  assume "r' < length b"
  with False show ?thesis by (auto simp: place_def)
qed

lemma length_place [simp]: "length (place b r c tok) = length b"
  by (simp add: place_def)

lemma length_place_row: "r' < length b \<Longrightarrow> length (place b r c tok ! r') = length (b ! r')"
  by (simp add: place_row)

lemma place_cell:
  "r' < length b \<Longrightarrow> c' < length (b ! r') \<Longrightarrow>
   place b r c tok ! r' ! c' = (if r' = r \<and> c' = c then tok else b ! r' ! c')"
  by (auto simp: place_row nth_list_update)

lemma place_nth:
  "board_shape b \<Longrightarrow> r' < 6 \<Longrightarrow> c' < 7 \<Longrightarrow>
   place b r c tok ! r' ! c' = (if r' = r \<and> c' = c then tok else b ! r' ! c')"
  by (simp add: place_cell board_shapeD)

lemma place_shape: "board_shape b \<Longrightarrow> board_shape (place b r c tok)"
  by (simp add: board_shape_def list_all_length length_place_row)

lemma place_cells:
  assumes "board_cells b" and "tok = empty_cell \<or> tok = ''R'' \<or> tok = ''Y''"
  shows "board_cells (place b r c tok)"
  unfolding board_cells_def list_all_length
proof (intro allI impI)
  fix i j assume i: "i < length (place b r c tok)" and j: "j < length (place b r c tok ! i)"
  then have i': "i < length b" and j': "j < length (b ! i)" by (simp_all add: length_place_row)
  from board_cellsD[OF assms(1) i' j'] assms(2)
  show "place b r c tok ! i ! j = empty_cell \<or> place b r c tok ! i ! j = ''R''
        \<or> place b r c tok ! i ! j = ''Y''"
    by (auto simp: place_cell[OF i' j'])
qed

lemma lowest_empty_SomeD:
  "lowest_empty b c = Some r \<Longrightarrow> r < 6 \<and> b ! r ! c = empty_cell"
  unfolding lowest_empty_def by (auto dest!: find_Some_memD)

lemma lowest_empty_top:
  "b ! 0 ! c = empty_cell \<Longrightarrow> \<exists>r. lowest_empty b c = Some r"
proof -
  assume "b ! 0 ! c = empty_cell"
  then have "\<exists>r\<in>set (rev [0..<6]). b ! r ! c = empty_cell" by auto
  then have "find (\<lambda>r. b ! r ! c = empty_cell) (rev [0..<6]) \<noteq> None"
    unfolding find_None_iff by blast
  then show ?thesis by (auto simp: lowest_empty_def)
qed

lemma open_columns_iff:
  "m \<in> set (open_columns b) \<longleftrightarrow> 0 \<le> m \<and> m \<le> 6 \<and> b ! 0 ! nat m = empty_cell"
  by (auto simp: open_columns_def)

lemma distinct_open_columns: "distinct (open_columns b)"
  by (simp add: open_columns_def)

section \<open>Win detection\<close>

lemma scan_None_iff:
  "scan b hit cols rows = None \<longleftrightarrow> (\<forall>c\<in>set cols. \<forall>r\<in>set rows. \<not> hit (c, r))"
  by (auto simp: scan_def find_None_iff)

lemma scan_SomeD:
  "scan b hit cols rows = Some w \<Longrightarrow> \<exists>c\<in>set cols. \<exists>r\<in>set rows. hit (c, r) \<and> w = b ! r ! c"
proof -
  assume "scan b hit cols rows = Some w"
  then obtain p where p: "find hit (List.product cols rows) = Some p" and w: "w = (case p of (c, r) \<Rightarrow> b ! r ! c)"
    by (auto simp: scan_def)
  obtain c r where cr: "p = (c, r)" by (cases p)
  from find_Some_memD[OF p] cr have "c \<in> set cols" "r \<in> set rows" "hit (c, r)" by auto
  with w cr show ?thesis by auto
qed

lemma scan_upt_SomeD:
  "scan b hit [i..<j] [k..<l] = Some w \<Longrightarrow> \<exists>c\<in>{i..<j}. \<exists>r\<in>{k..<l}. hit (c, r) \<and> w = b ! r ! c"
  using scan_SomeD[of b hit "[i..<j]" "[k..<l]" w] unfolding set_upt .

lemma four_iff: "(\<forall>k\<in>{0..<4::nat}. P k) \<longleftrightarrow> P 0 \<and> P 1 \<and> P 2 \<and> P 3"
proof -
  have "{0..<4::nat} = {0, 1, 2, 3}" by auto
  then show ?thesis by simp
qed

lemma horizontal_line:
  "horizontal_at b (c, r) \<longleftrightarrow> (\<forall>k\<in>{0..<4}. b ! r ! (c + k) = b ! r ! c) \<and> b ! r ! c \<noteq> empty_cell"
  unfolding four_iff by (auto simp: horizontal_at_def)

lemma vertical_line:
  "vertical_at b (c, r) \<longleftrightarrow> (\<forall>k\<in>{0..<4}. b ! (r + k) ! c = b ! r ! c) \<and> b ! r ! c \<noteq> empty_cell"
  unfolding four_iff by (auto simp: vertical_at_def)

lemma pos_slope_line:
  "pos_slope_at b (c, r) \<longleftrightarrow> (\<forall>k\<in>{0..<4}. b ! (r + k) ! (c + k) = b ! r ! c) \<and> b ! r ! c \<noteq> empty_cell"
  unfolding four_iff by (auto simp: pos_slope_at_def)

lemma neg_slope_line:
  "neg_slope_at b (c, r) \<longleftrightarrow> (\<forall>k\<in>{0..<4}. b ! (r - k) ! (c + k) = b ! r ! c) \<and> b ! r ! c \<noteq> empty_cell"
  unfolding four_iff by (auto simp: neg_slope_at_def)

lemma horizontal_has_line:
  "horizontal_at b (c, r) \<Longrightarrow> r \<in> {0..<6} \<Longrightarrow> c \<in> {0..<4} \<Longrightarrow> has_line b (b ! r ! c)"
  unfolding has_line_def horizontal_line by (rule disjI1) (rule bexI[of _ r], rule bexI[of _ c], auto)

lemma vertical_has_line:
  "vertical_at b (c, r) \<Longrightarrow> r \<in> {0..<3} \<Longrightarrow> c \<in> {0..<7} \<Longrightarrow> has_line b (b ! r ! c)"
  unfolding has_line_def vertical_line
  by (rule disjI2, rule disjI1) (rule bexI[of _ r], rule bexI[of _ c], auto)

lemma pos_slope_has_line:
  "pos_slope_at b (c, r) \<Longrightarrow> r \<in> {0..<3} \<Longrightarrow> c \<in> {0..<4} \<Longrightarrow> has_line b (b ! r ! c)"
  unfolding has_line_def pos_slope_line
  by (rule disjI2, rule disjI2, rule disjI1) (rule bexI[of _ r], rule bexI[of _ c], auto)

lemma neg_slope_has_line:
  "neg_slope_at b (c, r) \<Longrightarrow> r \<in> {3..<6} \<Longrightarrow> c \<in> {0..<4} \<Longrightarrow> has_line b (b ! r ! c)"
  unfolding has_line_def neg_slope_line
  by (rule disjI2, rule disjI2, rule disjI2) (rule bexI[of _ r], rule bexI[of _ c], auto)

lemma at_nonempty:
  "horizontal_at b (c, r) \<Longrightarrow> b ! r ! c \<noteq> empty_cell"
  "vertical_at b (c, r) \<Longrightarrow> b ! r ! c \<noteq> empty_cell"
  "pos_slope_at b (c, r) \<Longrightarrow> b ! r ! c \<noteq> empty_cell"
  "neg_slope_at b (c, r) \<Longrightarrow> b ! r ! c \<noteq> empty_cell"
  by (auto simp: horizontal_at_def vertical_at_def pos_slope_at_def neg_slope_at_def)

lemma check_win_SomeD:
  assumes "check_win_on_board b = Some t"
  shows "t \<noteq> empty_cell \<and> has_line b t"
proof -
  from assms consider
    (H) "scan b (horizontal_at b) [0..<4] [0..<6] = Some t"
  | (V) "scan b (vertical_at b) [0..<7] [0..<3] = Some t"
  | (P) "scan b (pos_slope_at b) [0..<4] [0..<3] = Some t"
  | (M) "scan b (neg_slope_at b) [0..<4] [3..<6] = Some t"
    by (auto simp: check_win_on_board_def split: option.splits)
  then show ?thesis
  proof cases
    case H
    from scan_upt_SomeD[OF this] obtain c r where "c \<in> {0..<4}" "r \<in> {0..<6}" "horizontal_at b (c, r)" "t = b ! r ! c"
      by blast
    then show ?thesis by (simp add: horizontal_has_line at_nonempty(1))
  next
    case V
    from scan_upt_SomeD[OF this] obtain c r where "c \<in> {0..<7}" "r \<in> {0..<3}" "vertical_at b (c, r)" "t = b ! r ! c"
      by blast
    then show ?thesis by (simp add: vertical_has_line at_nonempty(2))
  next
    case P
    from scan_upt_SomeD[OF this] obtain c r where "c \<in> {0..<4}" "r \<in> {0..<3}" "pos_slope_at b (c, r)" "t = b ! r ! c"
      by blast
    then show ?thesis by (simp add: pos_slope_has_line at_nonempty(3))
  next
    case M
    from scan_upt_SomeD[OF this] obtain c r where "c \<in> {0..<4}" "r \<in> {3..<6}" "neg_slope_at b (c, r)" "t = b ! r ! c"
      by blast
    then show ?thesis by (simp add: neg_slope_has_line at_nonempty(4))
  qed
qed

lemma check_win_None_iff: "check_win_on_board b = None \<longleftrightarrow> \<not> winning_line b"
proof
  assume n: "check_win_on_board b = None"
  then have "scan b (horizontal_at b) [0..<4] [0..<6] = None"
    and "scan b (vertical_at b) [0..<7] [0..<3] = None"
    and "scan b (pos_slope_at b) [0..<4] [0..<3] = None"
    and "scan b (neg_slope_at b) [0..<4] [3..<6] = None"
    by (simp_all add: check_win_on_board_def split: option.splits)
  then have h: "\<forall>c\<in>{0..<4}. \<forall>r\<in>{0..<6}. \<not> horizontal_at b (c, r)"
    and v: "\<forall>c\<in>{0..<7}. \<forall>r\<in>{0..<3}. \<not> vertical_at b (c, r)"
    and p: "\<forall>c\<in>{0..<4}. \<forall>r\<in>{0..<3}. \<not> pos_slope_at b (c, r)"
    and m: "\<forall>c\<in>{0..<4}. \<forall>r\<in>{3..<6}. \<not> neg_slope_at b (c, r)"
    unfolding scan_None_iff set_upt by blast+
  show "\<not> winning_line b"
  proof
    assume "winning_line b"
    then obtain t where t: "t \<noteq> empty_cell" and l: "has_line b t"
      by (auto simp: winning_line_def)
    from l consider
      (H) r c where "r \<in> {0..<6}" "c \<in> {0..<4}" "\<forall>k\<in>{0..<4}. b ! r ! (c + k) = t"
    | (V) r c where "r \<in> {0..<3}" "c \<in> {0..<7}" "\<forall>k\<in>{0..<4}. b ! (r + k) ! c = t"
    | (P) r c where "r \<in> {0..<3}" "c \<in> {0..<4}" "\<forall>k\<in>{0..<4}. b ! (r + k) ! (c + k) = t"
    | (M) r c where "r \<in> {3..<6}" "c \<in> {0..<4}" "\<forall>k\<in>{0..<4}. b ! (r - k) ! (c + k) = t"
      unfolding has_line_def by blast
    then show False
    proof cases
      case H
      from H(3) have "b ! r ! c = t" by (simp add: four_iff)
      with H(3) t have "horizontal_at b (c, r)" by (simp add: horizontal_line)
      with h H(1,2) show False by blast
    next
      case V
      from V(3) have "b ! r ! c = t" by (simp add: four_iff)
      with V(3) t have "vertical_at b (c, r)" by (simp add: vertical_line)
      with v V(1,2) show False by blast
    next
      case P
      from P(3) have "b ! r ! c = t" by (simp add: four_iff)
      with P(3) t have "pos_slope_at b (c, r)" by (simp add: pos_slope_line)
      with p P(1,2) show False by blast
    next
      case M
      from M(3) have "b ! r ! c = t" by (simp add: four_iff)
      with M(3) t have "neg_slope_at b (c, r)" by (simp add: neg_slope_line)
      with m M(1,2) show False by blast
    qed
  qed
next
  assume nw: "\<not> winning_line b"
  show "check_win_on_board b = None"
  proof (cases "check_win_on_board b")
    case (Some t)
    from check_win_SomeD[OF this] nw show ?thesis by (auto simp: winning_line_def)
  qed simp
qed

lemma two_lines_board_reachable:
  "board (foldl (\<lambda>s m. snd (make_move s m)) Connect4_init two_lines_moves) = two_lines_board"
  by code_simp

text \<open>
  Claim C1, as stated: on every 6 by 7 board, \<open>check_win_on_board\<close> returns a token if and
  only if that token, not the blank, fills four contiguous cells of a row, a column or a
  diagonal. It fails on \<open>two_lines_board\<close>, where both tokens have a line: the vertical scan
  meets column 0 first and returns \<open>R\<close>, so \<open>Y\<close> has a line and is not returned.
\<close>

theorem check_win_on_board_counterexample:
  "board_shape two_lines_board \<and> ''Y'' \<noteq> empty_cell \<and> has_line two_lines_board ''Y''
   \<and> check_win_on_board two_lines_board = Some ''R''
   \<and> check_win_on_board two_lines_board \<noteq> Some ''Y''"
  by code_simp

text \<open>
  Claim C1, amended: on a 6 by 7 board, \<open>check_win_on_board\<close> returns some token exactly when
  some row, column or diagonal holds four contiguous equal non-blank cells; the token
  returned is never the blank and is the token of such a line; a non-blank token with a
  line is the one returned when no other non-blank token has a line; and the result is
  \<open>None\<close> exactly when the board has no such line.
\<close>

theorem check_win_on_board_correct:
  assumes "board_shape b"
  shows "((\<exists>t. check_win_on_board b = Some t) \<longleftrightarrow> winning_line b)
       \<and> (\<forall>t. check_win_on_board b = Some t \<longrightarrow> t \<noteq> empty_cell \<and> has_line b t)
       \<and> (\<forall>t. t \<noteq> empty_cell \<and> has_line b t
              \<and> (\<forall>u. u \<noteq> empty_cell \<and> has_line b u \<longrightarrow> u = t)
            \<longrightarrow> check_win_on_board b = Some t)
       \<and> (check_win_on_board b = None \<longleftrightarrow> \<not> winning_line b)
       \<and> check_win_on_board b \<noteq> Some empty_cell"
proof -
  have some: "(\<exists>t. check_win_on_board b = Some t) \<longleftrightarrow> winning_line b"
    using check_win_None_iff[of b] by (cases "check_win_on_board b") auto
  have sound: "\<forall>t. check_win_on_board b = Some t \<longrightarrow> t \<noteq> empty_cell \<and> has_line b t"
    using check_win_SomeD by blast
  have only: "check_win_on_board b = Some t"
    if "t \<noteq> empty_cell \<and> has_line b t \<and> (\<forall>u. u \<noteq> empty_cell \<and> has_line b u \<longrightarrow> u = t)" for t
  proof -
    from that have "winning_line b" by (auto simp: winning_line_def)
    with some obtain u where u: "check_win_on_board b = Some u" by blast
    with sound that have "u = t" by blast
    with u show ?thesis by simp
  qed
  from some sound only check_win_None_iff[of b] show ?thesis by blast
qed

theorem check_win_on_board_correct_witness:
  "board_shape row_win_board \<and> check_win_on_board row_win_board = Some ''R''
   \<and> has_line row_win_board ''R'' \<and> winning_line row_win_board"
proof -
  have s: "board_shape row_win_board" by code_simp
  have c: "check_win_on_board row_win_board = Some ''R''" by code_simp
  from check_win_on_board_correct[OF s] c
  have "has_line row_win_board ''R''" "winning_line row_win_board" by blast+
  with s c show ?thesis by simp
qed

lemma place_cell_other:
  assumes "board_shape b" "r' < 6" "c' < 7" "place b r c tok ! r' ! c' = u" "u \<noteq> tok"
  shows "b ! r' ! c' = u"
  using assms by (auto simp: place_nth split: if_splits)

lemma has_line_place:
  assumes sh: "board_shape b" and l: "has_line (place b r c tok) u" and ne: "u \<noteq> tok"
  shows "has_line b u"
proof -
  let ?p = "place b r c tok"
  from l consider
    (H) r0 c0 where "r0 \<in> {0..<6}" "c0 \<in> {0..<4}" "\<forall>k\<in>{0..<4}. ?p ! r0 ! (c0 + k) = u"
  | (V) r0 c0 where "r0 \<in> {0..<3}" "c0 \<in> {0..<7}" "\<forall>k\<in>{0..<4}. ?p ! (r0 + k) ! c0 = u"
  | (P) r0 c0 where "r0 \<in> {0..<3}" "c0 \<in> {0..<4}" "\<forall>k\<in>{0..<4}. ?p ! (r0 + k) ! (c0 + k) = u"
  | (M) r0 c0 where "r0 \<in> {3..<6}" "c0 \<in> {0..<4}" "\<forall>k\<in>{0..<4}. ?p ! (r0 - k) ! (c0 + k) = u"
    unfolding has_line_def by blast
  then show ?thesis
  proof cases
    case H
    have "\<forall>k\<in>{0..<4}. b ! r0 ! (c0 + k) = u"
    proof
      fix k assume k: "k \<in> {0..<4::nat}"
      with H have "?p ! r0 ! (c0 + k) = u" "r0 < 6" "c0 + k < 7" by auto
      with sh ne show "b ! r0 ! (c0 + k) = u" by (blast intro: place_cell_other)
    qed
    with H(1,2) show ?thesis unfolding has_line_def by blast
  next
    case V
    have "\<forall>k\<in>{0..<4}. b ! (r0 + k) ! c0 = u"
    proof
      fix k assume k: "k \<in> {0..<4::nat}"
      with V have "?p ! (r0 + k) ! c0 = u" "r0 + k < 6" "c0 < 7" by auto
      with sh ne show "b ! (r0 + k) ! c0 = u" by (blast intro: place_cell_other)
    qed
    with V(1,2) show ?thesis unfolding has_line_def by blast
  next
    case P
    have "\<forall>k\<in>{0..<4}. b ! (r0 + k) ! (c0 + k) = u"
    proof
      fix k assume k: "k \<in> {0..<4::nat}"
      with P have "?p ! (r0 + k) ! (c0 + k) = u" "r0 + k < 6" "c0 + k < 7" by auto
      with sh ne show "b ! (r0 + k) ! (c0 + k) = u" by (blast intro: place_cell_other)
    qed
    with P(1,2) show ?thesis unfolding has_line_def by blast
  next
    case M
    have "\<forall>k\<in>{0..<4}. b ! (r0 - k) ! (c0 + k) = u"
    proof
      fix k assume k: "k \<in> {0..<4::nat}"
      with M have "?p ! (r0 - k) ! (c0 + k) = u" "r0 - k < 6" "c0 + k < 7" by auto
      with sh ne show "b ! (r0 - k) ! (c0 + k) = u" by (blast intro: place_cell_other)
    qed
    with M(1,2) show ?thesis unfolding has_line_def by blast
  qed
qed

lemma check_win_place:
  assumes sh: "board_shape b" and nw: "\<not> winning_line b" and tok: "tok \<noteq> empty_cell"
  shows "check_win_on_board (place b r c tok) = Some tok \<longleftrightarrow> has_line (place b r c tok) tok"
proof
  assume "check_win_on_board (place b r c tok) = Some tok"
  then show "has_line (place b r c tok) tok" by (simp add: check_win_SomeD)
next
  assume l: "has_line (place b r c tok) tok"
  with tok have "winning_line (place b r c tok)" by (auto simp: winning_line_def)
  then obtain u where u: "check_win_on_board (place b r c tok) = Some u"
    using check_win_None_iff[of "place b r c tok"] by (cases "check_win_on_board (place b r c tok)") auto
  from check_win_SomeD[OF u] have "u \<noteq> empty_cell" "has_line (place b r c tok) u" by simp_all
  have "u = tok"
  proof (rule ccontr)
    assume "u \<noteq> tok"
    from has_line_place[OF sh \<open>has_line (place b r c tok) u\<close> this] \<open>u \<noteq> empty_cell\<close> nw
    show False by (auto simp: winning_line_def)
  qed
  with u show "check_win_on_board (place b r c tok) = Some tok" by simp
qed

lemma winning_line_place:
  assumes sh: "board_shape b" and nw: "\<not> winning_line b" and tok: "tok \<noteq> empty_cell"
  shows "winning_line (place b r c tok) \<longleftrightarrow> has_line (place b r c tok) tok"
proof
  assume "winning_line (place b r c tok)"
  then obtain u where u: "u \<noteq> empty_cell" "has_line (place b r c tok) u"
    by (auto simp: winning_line_def)
  have "u = tok"
  proof (rule ccontr)
    assume "u \<noteq> tok"
    from has_line_place[OF sh u(2) this] u(1) nw show False by (auto simp: winning_line_def)
  qed
  with u show "has_line (place b r c tok) tok" by simp
next
  assume "has_line (place b r c tok) tok"
  with tok show "winning_line (place b r c tok)" by (auto simp: winning_line_def)
qed

lemma check_win_token:
  assumes "board_shape b" "board_cells b" "check_win_on_board b = Some t"
  shows "t = ''R'' \<or> t = ''Y''"
proof -
  from assms(3) consider
    (H) "scan b (horizontal_at b) [0..<4] [0..<6] = Some t"
  | (V) "scan b (vertical_at b) [0..<7] [0..<3] = Some t"
  | (P) "scan b (pos_slope_at b) [0..<4] [0..<3] = Some t"
  | (M) "scan b (neg_slope_at b) [0..<4] [3..<6] = Some t"
    by (auto simp: check_win_on_board_def split: option.splits)
  then obtain c r where "c < 7" "r < 6" "t = b ! r ! c"
  proof cases
    case H
    from scan_upt_SomeD[OF this] obtain c r where "c \<in> {0..<4}" "r \<in> {0..<6}" "t = b ! r ! c" by blast
    then show ?thesis by (intro that[of c r]) auto
  next
    case V
    from scan_upt_SomeD[OF this] obtain c r where "c \<in> {0..<7}" "r \<in> {0..<3}" "t = b ! r ! c" by blast
    then show ?thesis by (intro that[of c r]) auto
  next
    case P
    from scan_upt_SomeD[OF this] obtain c r where "c \<in> {0..<4}" "r \<in> {0..<3}" "t = b ! r ! c" by blast
    then show ?thesis by (intro that[of c r]) auto
  next
    case M
    from scan_upt_SomeD[OF this] obtain c r where "c \<in> {0..<4}" "r \<in> {3..<6}" "t = b ! r ! c" by blast
    then show ?thesis by (intro that[of c r]) auto
  qed
  with board_cellsD[OF assms(2), of r c] assms(1) check_win_SomeD[OF assms(3)]
  show ?thesis by (auto simp: board_shapeD)
qed

section \<open>Methods of the game state\<close>

lemma get_available_moves_self:
  "get_available_moves s None =
     (open_columns (board s), if open_columns (board s) = [] then s\<lparr>game_over := True\<rparr> else s)"
  by (simp add: get_available_moves_def Let_def)

lemma get_available_moves_board:
  "get_available_moves s (Some b) =
     (open_columns b, if open_columns b = [] then s\<lparr>game_over := True\<rparr> else s)"
  by (simp add: get_available_moves_def Let_def)

lemma check_winstate_wf:
  assumes "wf_state s"
  shows "check_winstate s =
     (check_win_on_board (board s),
      if check_win_on_board (board s) = None then s else s\<lparr>game_over := True\<rparr>)"
proof (cases "check_win_on_board (board s)")
  case None
  then show ?thesis by (simp add: check_winstate_def)
next
  case (Some t)
  with check_win_token[of "board s" t] assms have "t \<noteq> []" by (auto simp: wf_state_def)
  with Some show ?thesis by (simp add: check_winstate_def)
qed

lemma check_winstate_board [simp]: "board (snd (check_winstate s)) = board s"
  and check_winstate_players [simp]: "player_list (snd (check_winstate s)) = player_list s"
  and check_winstate_turn [simp]: "current_turn (snd (check_winstate s)) = current_turn s"
  by (auto simp: check_winstate_def split: option.splits)

lemma check_winstate_preserves_wf: "wf_state s \<Longrightarrow> wf_state (snd (check_winstate s))"
  by (simp add: wf_state_def)

lemma copy_fields [simp]:
  "board (copy s) = board s" "game_over (copy s) = game_over s"
  "player_list (copy s) = player_list s" "current_turn (copy s) = current_turn s"
  "available_moves (copy s) = available_moves s"
  by (simp_all add: copy_def)

lemma copy_preserves_wf [simp]: "wf_state (copy s) = wf_state s"
  by (simp add: wf_state_def)

lemma current_player_wf: "wf_state s \<Longrightarrow> current_player s = ''R'' \<or> current_player s = ''Y''"
proof -
  assume w: "wf_state s"
  have "current_turn s mod 2 = 0 \<or> current_turn s mod 2 = 1" by presburger
  with w show ?thesis by (auto simp: current_player_def wf_state_def)
qed

lemma current_player_not_blank: "wf_state s \<Longrightarrow> current_player s \<noteq> empty_cell"
  using current_player_wf[of s] by (auto simp: empty_cell_def)

lemma simulate_move_on_open:
  assumes "m \<in> set (open_columns b)"
  obtains r where "r < 6" "b ! r ! nat m = empty_cell" "simulate_move_on b m p = place b r (nat m) p"
proof -
  from assms have "b ! 0 ! nat m = empty_cell" by (simp add: open_columns_iff)
  from lowest_empty_top[OF this] obtain r where r: "lowest_empty b (nat m) = Some r" by blast
  have "simulate_move_on b m p = place b r (nat m) p" using r by (simp add: simulate_move_on_def)
  with lowest_empty_SomeD[OF r] that show ?thesis by blast
qed

lemma make_move_open:
  assumes "m \<in> set (open_columns (board s))"
  obtains r where "r < 6" "board s ! r ! nat m = empty_cell"
    "make_move s m = (True, s\<lparr>available_moves := open_columns (board s),
                               board := place (board s) r (nat m) (current_player s),
                               current_turn := current_turn s + 1\<rparr>)"
proof -
  from assms have ne: "open_columns (board s) \<noteq> []" by auto
  from assms have "board s ! 0 ! nat m = empty_cell" by (simp add: open_columns_iff)
  from lowest_empty_top[OF this] obtain r where r: "lowest_empty (board s) (nat m) = Some r" by blast
  have "make_move s m = (True, s\<lparr>available_moves := open_columns (board s),
                               board := place (board s) r (nat m) (current_player s),
                               current_turn := current_turn s + 1\<rparr>)"
    using assms ne r by (simp add: make_move_def get_available_moves_self current_player_def)
  with lowest_empty_SomeD[OF r] that show ?thesis by blast
qed

lemma make_move_refused:
  "m \<notin> set (open_columns (board s)) \<Longrightarrow>
   make_move s m = (False, s\<lparr>game_over := game_over s \<or> open_columns (board s) = [],
                             available_moves := open_columns (board s)\<rparr>)"
  by (cases s) (auto simp: make_move_def get_available_moves_def Let_def)

lemma make_move_preserves_wf:
  assumes "wf_state s"
  shows "wf_state (snd (make_move s m))"
proof (cases "m \<in> set (open_columns (board s))")
  case True
  from make_move_open[OF True] obtain r where
    "make_move s m = (True, s\<lparr>available_moves := open_columns (board s),
                               board := place (board s) r (nat m) (current_player s),
                               current_turn := current_turn s + 1\<rparr>)" by blast
  with assms current_player_wf[OF assms] show ?thesis
    by (auto simp: wf_state_def place_shape place_cells)
next
  case False
  from make_move_refused[OF False] assms show ?thesis by (simp add: wf_state_def)
qed

lemma column0_full_reachable:
  "snd (make_move (snd (make_move (snd (make_move (snd (make_move (snd (make_move
     (snd (make_move Connect4_init 0)) 0)) 0)) 0)) 0)) 0) = column0_full"
  by code_simp

text \<open>
  Claim C2, as stated: for a column that is not available, \<open>make_move\<close> returns \<open>False\<close> and
  leaves every field of the state as it was. It fails after six moves in column 0: the
  refused seventh call replaces the \<open>available_moves\<close> field.
\<close>

theorem make_move_unavailable_counterexample:
  "wf_state column0_full \<and> 0 \<notin> set (open_columns (board column0_full))
   \<and> make_move column0_full 0 \<noteq> (False, column0_full)"
  by code_simp

text \<open>
  Claim C2, amended: for a column that is not available, \<open>make_move\<close> returns \<open>False\<close> and
  leaves the board, the turn index, the player list and \<open>sum\<close> as they were; it sets
  \<open>available_moves\<close> to the columns open now, and sets \<open>game_over\<close> when there is none.
\<close>

theorem make_move_unavailable:
  assumes "wf_state s" and "mv \<notin> set (open_columns (board s))"
  shows "make_move s mv =
           (False, s\<lparr>game_over := game_over s \<or> open_columns (board s) = [],
                      available_moves := open_columns (board s)\<rparr>)"
  using assms(2) by (rule make_move_refused)

theorem make_move_unavailable_witness:
  "wf_state column0_full \<and> 0 \<notin> set (open_columns (board column0_full))
   \<and> fst (make_move column0_full 0) = False
   \<and> board (snd (make_move column0_full 0)) = board column0_full
   \<and> current_turn (snd (make_move column0_full 0)) = current_turn column0_full
   \<and> available_moves (snd (make_move column0_full 0)) = [1, 2, 3, 4, 5, 6]"
proof -
  have w: "wf_state column0_full" by code_simp
  have n: "0 \<notin> set (open_columns (board column0_full))" by code_simp
  have o: "open_columns (board column0_full) = [1, 2, 3, 4, 5, 6]" by code_simp
  from make_move_unavailable[OF w n] w n o show ?thesis by simp
qed

section \<open>Node construction\<close>

lemma MCTSNode_init_fields [simp]:
  "parent (MCTSNode_init st par mv) = par"
  "move (MCTSNode_init st par mv) = mv"
  "children (MCTSNode_init st par mv) = []"
  "visits (MCTSNode_init st par mv) = 0"
  "wins (MCTSNode_init st par mv) = 0"
  by (simp_all add: MCTSNode_init_def Let_def split: prod.splits)

lemma MCTSNode_init_untried:
  assumes "wf_state st"
  shows "untried_moves (MCTSNode_init st par mv) =
           (if winning_line (board st) then [] else open_columns (board st))"
proof (cases "check_win_on_board (board st)")
  case None
  then have "\<not> winning_line (board st)" by (simp add: check_win_None_iff)
  with None show ?thesis
    by (simp add: MCTSNode_init_def check_winstate_wf[OF assms] get_available_moves_self)
next
  case (Some t)
  then have "winning_line (board st)" using check_win_None_iff[of "board st"] by auto
  with Some show ?thesis
    by (simp add: MCTSNode_init_def check_winstate_wf[OF assms])
qed

section \<open>The shortcuts of get_best_move\<close>

lemma simulate_move_default:
  "simulate_move s m None None = simulate_move_on (board s) m (current_player s)"
  "simulate_move s m (Some p) (Some b) = simulate_move_on b m p"
  by (simp_all add: simulate_move_def)

lemma other_player_wf: "wf_state s \<Longrightarrow> other_player s = ''R'' \<or> other_player s = ''Y''"
proof -
  assume w: "wf_state s"
  have "(current_turn s + 1) mod 2 = 0 \<or> (current_turn s + 1) mod 2 = 1" by presburger
  with w show ?thesis by (auto simp: other_player_def wf_state_def)
qed

lemma other_player_not_blank: "wf_state s \<Longrightarrow> other_player s \<noteq> empty_cell"
  using other_player_wf[of s] by (auto simp: empty_cell_def)

lemma open_columns_place:
  assumes "board_shape b" "c' \<in> set (open_columns b)" "nat c' \<noteq> c"
  shows "c' \<in> set (open_columns (place b r c tok))"
proof -
  from assms(2) have "0 \<le> c'" "c' \<le> 6" "b ! 0 ! nat c' = empty_cell"
    by (simp_all add: open_columns_iff)
  moreover from this have "nat c' < 7" by simp
  ultimately show ?thesis using assms(1,3) by (simp add: open_columns_iff place_nth)
qed

lemma two_open_columns:
  assumes "2 \<le> length (open_columns b)"
  obtains c' where "c' \<in> set (open_columns b)" "c' \<noteq> m"
proof -
  from assms obtain x y xs where xy: "open_columns b = x # y # xs"
    by (cases "open_columns b"; cases "tl (open_columns b)") auto
  with distinct_open_columns[of b] have "x \<noteq> y" by auto
  with xy that[of x] that[of y] show ?thesis by (cases "x = m") auto
qed

lemma simulate_leaves_open:
  assumes sh: "board_shape b" and two: "2 \<le> length (open_columns b)"
    and m: "m \<in> set (open_columns b)"
  shows "open_columns (simulate_move_on b m p) \<noteq> []"
proof -
  from two_open_columns[OF two, of m] obtain c' where c': "c' \<in> set (open_columns b)" "c' \<noteq> m"
    by blast
  from c'(1) m have "0 \<le> c'" "0 \<le> m" by (simp_all add: open_columns_iff)
  with c'(2) have ne: "nat c' \<noteq> nat m" by simp
  from simulate_move_on_open[OF m, of p] obtain r where
    "simulate_move_on b m p = place b r (nat m) p" by blast
  with open_columns_place[OF sh c'(1) ne, of r p] show ?thesis by auto
qed

text \<open>On a board without a line, the scan after one placement decides \<open>immediate_win\<close>.\<close>

lemma check_win_simulate:
  assumes sh: "board_shape b" and nw: "\<not> winning_line b" and p: "p \<noteq> empty_cell"
    and m: "m \<in> set (open_columns b)"
  shows "check_win_on_board (simulate_move_on b m p) = Some p \<longleftrightarrow> has_line (simulate_move_on b m p) p"
    and "winning_line (simulate_move_on b m p) \<longleftrightarrow> has_line (simulate_move_on b m p) p"
    and "board_shape (simulate_move_on b m p)"
proof -
  from simulate_move_on_open[OF m, of p] obtain r where
    r: "simulate_move_on b m p = place b r (nat m) p" by blast
  show "check_win_on_board (simulate_move_on b m p) = Some p \<longleftrightarrow> has_line (simulate_move_on b m p) p"
    unfolding r by (rule check_win_place[OF sh nw p])
  show "winning_line (simulate_move_on b m p) \<longleftrightarrow> has_line (simulate_move_on b m p) p"
    unfolding r by (rule winning_line_place[OF sh nw p])
  show "board_shape (simulate_move_on b m p)"
    unfolding r by (rule place_shape[OF sh])
qed

lemma find_immediate_win:
  assumes w: "wf_state s" and nw: "\<not> winning_line (board s)"
  shows "find (\<lambda>mv. check_win_on_board (simulate_move s mv None None) = Some (current_player s))
              (open_columns (board s))
         = find (immediate_win s) (open_columns (board s))"
proof (rule find_cong)
  fix m assume "m \<in> set (open_columns (board s))"
  with check_win_simulate(1)[OF _ nw current_player_not_blank[OF w], of m] w
  show "(check_win_on_board (simulate_move s m None None) = Some (current_player s))
        = immediate_win s m"
    by (simp add: immediate_win_def simulate_move_default wf_state_def)
qed simp

lemma opponent_scan:
  assumes w: "wf_state s" and nw: "\<not> winning_line (board s)"
    and m: "m \<in> set (open_columns (board s))" and ni: "\<not> immediate_win s m"
  shows "list_ex (\<lambda>opp. check_win_on_board (simulate_move s opp (Some (other_player s))
                           (Some (simulate_move s m None None))) = Some (other_player s))
                 (open_columns (simulate_move s m None None))
         = unsafe_move s m"
proof -
  let ?sim = "simulate_move s m None None"
  from w have sh: "board_shape (board s)" by (simp add: wf_state_def)
  have sim: "?sim = simulate_move_on (board s) m (current_player s)"
    by (simp add: simulate_move_default)
  from check_win_simulate(2,3)[OF sh nw current_player_not_blank[OF w] m] ni
  have nws: "\<not> winning_line ?sim" and shs: "board_shape ?sim"
    by (simp_all add: sim immediate_win_def simulate_move_default)
  have "(check_win_on_board (simulate_move s opp (Some (other_player s)) (Some ?sim))
           = Some (other_player s))
      = has_line (simulate_move s opp (Some (other_player s)) (Some ?sim)) (other_player s)"
    if "opp \<in> set (open_columns ?sim)" for opp
    using check_win_simulate(1)[OF shs nws other_player_not_blank[OF w] that]
    by (simp add: simulate_move_default)
  then show ?thesis unfolding unsafe_move_def list_ex_iff by blast
qed

lemma block_check_correct:
  assumes w: "wf_state s" and nw: "\<not> winning_line (board s)"
    and two: "2 \<le> length (open_columns (board s))"
    and sub: "set ms \<subseteq> set (open_columns (board s))"
    and ni: "\<forall>m\<in>set ms. \<not> immediate_win s m"
  shows "block_check s (other_player s) acc ms = (acc @ filter (\<lambda>m. \<not> unsafe_move s m) ms, s)"
  using sub ni
proof (induction ms arbitrary: acc)
  case Nil
  then show ?case by simp
next
  case (Cons m ms)
  from w have sh: "board_shape (board s)" by (simp add: wf_state_def)
  from Cons.prems have m: "m \<in> set (open_columns (board s))" and nim: "\<not> immediate_win s m" by auto
  have "open_columns (simulate_move s m None None) \<noteq> []"
    using simulate_leaves_open[OF sh two m] by (simp add: simulate_move_default)
  then have g: "get_available_moves s (Some (simulate_move s m None None))
                  = (open_columns (simulate_move s m None None), s)"
    by (simp add: get_available_moves_board)
  from Cons.prems have "set ms \<subseteq> set (open_columns (board s))" "\<forall>m\<in>set ms. \<not> immediate_win s m"
    by auto
  note ih = Cons.IH[OF this]
  show ?case
    by (simp add: g Let_def opponent_scan[OF w nw m nim] ih)
qed

lemma filter_mem_filter: "filter (\<lambda>m. m \<in> set (filter P xs)) xs = filter P xs"
  by (rule filter_cong) auto

lemma root_untried:
  "wf_state s \<Longrightarrow> untried_moves (MCTSNode_init (copy s) None None) =
     (if winning_line (board s) then [] else open_columns (board s))"
  using MCTSNode_init_untried[of "copy s" None None] by simp

lemma pre_search_terminal:
  assumes "wf_state s" and "winning_line (board s) \<or> open_columns (board s) = []"
  shows "pre_search s = (Return None, MCTSNode_init (copy s) None None, s)"
  using assms(2) by (auto simp: pre_search_def Let_def root_untried[OF assms(1)])

lemma pre_search_single:
  assumes "wf_state s" and "\<not> winning_line (board s)" and "open_columns (board s) = [m]"
  shows "pre_search s = (Return (Some m), MCTSNode_init (copy s) None None, s)"
  using assms(2,3) by (simp add: pre_search_def Let_def root_untried[OF assms(1)])

lemma pre_search_several:
  assumes w: "wf_state s" and nw: "\<not> winning_line (board s)"
    and two: "2 \<le> length (open_columns (board s))"
  shows "pre_search s =
     (case find (immediate_win s) (open_columns (board s)) of
        Some mv \<Rightarrow> (Return (Some mv), MCTSNode_init (copy s) None None, s)
      | None \<Rightarrow>
         (Search,
          if safe_moves_of s \<noteq> []
          then (MCTSNode_init (copy s) None None)\<lparr>untried_moves := safe_moves_of s\<rparr>
          else MCTSNode_init (copy s) None None,
          s))"
proof -
  from two have ne: "open_columns (board s) \<noteq> []" and n1: "length (open_columns (board s)) \<noteq> 1"
    by auto
  have g: "get_available_moves s None = (open_columns (board s), s)"
    using ne by (simp add: get_available_moves_self)
  show ?thesis
  proof (cases "find (immediate_win s) (open_columns (board s))")
    case (Some mv)
    with nw ne n1 show ?thesis
      by (simp add: pre_search_def Let_def root_untried[OF w] g find_immediate_win[OF w nw])
  next
    case None
    then have ni: "\<forall>m\<in>set (open_columns (board s)). \<not> immediate_win s m"
      by (simp add: find_None_iff)
    have bc: "block_check s (other_player s) [] (open_columns (board s)) = (safe_moves_of s, s)"
      using block_check_correct[OF w nw two subset_refl ni, of "[]"] by (simp add: safe_moves_of_def)
    have cs: "filter (\<lambda>m. m \<in> set (safe_moves_of s)) (open_columns (board s)) = safe_moves_of s"
      unfolding safe_moves_of_def by (rule filter_mem_filter)
    from None nw ne n1 show ?thesis
      by (simp add: pre_search_def Let_def root_untried[OF w] g find_immediate_win[OF w nw] bc cs)
  qed
qed

lemma pre_search_root_state:
  assumes w: "wf_state s"
  shows "snd (snd (pre_search s)) = s"
proof -
  consider (T) "winning_line (board s) \<or> open_columns (board s) = []"
    | (S) m where "\<not> winning_line (board s)" "open_columns (board s) = [m]"
    | (M) "\<not> winning_line (board s)" "2 \<le> length (open_columns (board s))"
    by (cases "open_columns (board s)"; cases "tl (open_columns (board s))") auto
  then show ?thesis
  proof cases
    case T then show ?thesis by (simp add: pre_search_terminal[OF w])
  next
    case S then show ?thesis by (simp add: pre_search_single[OF w])
  next
    case M then show ?thesis by (simp add: pre_search_several[OF w] split: option.splits)
  qed
qed

text \<open>
  Claim C9. When the root state already holds a winning line, \<open>get_best_move\<close> returns \<open>None\<close>,
  whatever columns are still open, as it does when no column is open.
\<close>

theorem get_best_move_won_root:
  assumes "wf_state s" and "winning_line (board s) \<or> open_columns (board s) = []"
  shows "get_best_move fl self rnd s = Some (Inr None, s)
       \<and> untried_moves (fst (snd (pre_search s))) = []"
  using assms(2)
  by (auto simp: get_best_move_def pre_search_terminal[OF assms] root_untried[OF assms(1)])

theorem get_best_move_won_root_witness:
  "\<forall>fl. wf_state won_root \<and> winning_line (board won_root)
     \<and> open_columns (board won_root) = [0, 1, 2, 3, 4, 5, 6]
     \<and> get_best_move fl \<lparr>simulations = 1000, exploration_constant = fl_num fl 1\<rparr> (\<lambda>k. 0)
          won_root
         = Some (Inr None, won_root)"
proof
  fix fl :: "'f pyfloat"
  have w: "wf_state won_root" by code_simp
  have "has_line (board won_root) ''R''" by code_simp
  then have l: "winning_line (board won_root)"
    unfolding winning_line_def empty_cell_def by (intro exI[of _ "''R''"]) simp
  have o: "open_columns (board won_root) = [0, 1, 2, 3, 4, 5, 6]" by code_simp
  from get_best_move_won_root[OF w disjI1[OF l],
      of fl "\<lparr>simulations = 1000, exploration_constant = fl_num fl 1\<rparr>" "\<lambda>k. 0"] w l o
  show "wf_state won_root \<and> winning_line (board won_root)
     \<and> open_columns (board won_root) = [0, 1, 2, 3, 4, 5, 6]
     \<and> get_best_move fl \<lparr>simulations = 1000, exploration_constant = fl_num fl 1\<rparr> (\<lambda>k. 0)
          won_root
         = Some (Inr None, won_root)" by simp
qed

text \<open>
  Claim C4. On a root state without a winning line, with at least two open columns, one of
  which wins immediately for the side to move, \<open>get_best_move\<close> returns a column that wins
  immediately (the first one, in column order). It returns from the code before the main
  loop, so the result does not depend on the budget or on the random draws.
\<close>

theorem get_best_move_takes_win:
  assumes "wf_state s" and "\<not> winning_line (board s)"
    and "2 \<le> length (open_columns (board s))"
    and "\<exists>m\<in>set (open_columns (board s)). immediate_win s m"
  shows "\<exists>m. m \<in> set (open_columns (board s)) \<and> immediate_win s m
           \<and> find (immediate_win s) (open_columns (board s)) = Some m
           \<and> fst (pre_search s) = Return (Some m)
           \<and> get_best_move fl self rnd s = Some (Inr (Some m), s)"
proof -
  from assms(4) have "find (immediate_win s) (open_columns (board s)) \<noteq> None"
    by (auto simp: find_None_iff)
  then obtain m where m: "find (immediate_win s) (open_columns (board s)) = Some m" by auto
  from find_Some_memD[OF m] have "m \<in> set (open_columns (board s))" "immediate_win s m" by simp_all
  moreover from m have "pre_search s = (Return (Some m), MCTSNode_init (copy s) None None, s)"
    by (simp add: pre_search_several[OF assms(1-3)])
  ultimately show ?thesis using m by (auto simp: get_best_move_def)
qed

theorem get_best_move_takes_win_witness:
  "\<forall>fl. wf_state three_root \<and> \<not> winning_line (board three_root)
     \<and> 2 \<le> length (open_columns (board three_root))
     \<and> immediate_win three_root 3
     \<and> get_best_move fl \<lparr>simulations = 1000, exploration_constant = fl_num fl 1\<rparr> (\<lambda>k. 0)
          three_root
         = Some (Inr (Some 3), three_root)"
proof
  fix fl :: "'f pyfloat"
  have w: "wf_state three_root" by code_simp
  have "check_win_on_board (board three_root) = None" by code_simp
  then have n: "\<not> winning_line (board three_root)" by (simp add: check_win_None_iff)
  have o: "open_columns (board three_root) = [0, 1, 2, 3, 4, 5, 6]" by code_simp
  then have t: "2 \<le> length (open_columns (board three_root))" by simp
  have i: "immediate_win three_root 3" by code_simp
  have f: "find (immediate_win three_root) (open_columns (board three_root)) = Some 3" by code_simp
  from i o have e: "\<exists>m\<in>set (open_columns (board three_root)). immediate_win three_root m" by simp
  from get_best_move_takes_win[OF w n t e,
      of fl "\<lparr>simulations = 1000, exploration_constant = fl_num fl 1\<rparr>" "\<lambda>k. 0"] f w n t i
  show "wf_state three_root \<and> \<not> winning_line (board three_root)
     \<and> 2 \<le> length (open_columns (board three_root))
     \<and> immediate_win three_root 3
     \<and> get_best_move fl \<lparr>simulations = 1000, exploration_constant = fl_num fl 1\<rparr> (\<lambda>k. 0)
          three_root
         = Some (Inr (Some 3), three_root)" by auto
qed

section \<open>The position block_root\<close>

lemma block_root_wf: "wf_state block_root"
  by code_simp

lemma block_root_no_line: "\<not> winning_line (board block_root)"
proof -
  have "check_win_on_board (board block_root) = None" by code_simp
  then show ?thesis by (simp add: check_win_None_iff)
qed

lemma block_root_open: "open_columns (board block_root) = [0, 1, 2, 3, 4, 5, 6]"
  by code_simp

lemma block_root_no_win: "find (immediate_win block_root) (open_columns (board block_root)) = None"
  by code_simp

lemma block_root_search: "fst (pre_search block_root) = Search"
  using block_root_no_win block_root_open
  by (simp add: pre_search_several[OF block_root_wf block_root_no_line])

text \<open>
  Claim C5. On a root state without a winning line, with at least two open columns, none of
  which wins immediately, the code before the main loop leaves the root node with, as its
  untried moves, exactly the open columns after which the opponent has no immediately
  winning reply, when there is such a column, and all the open columns otherwise.
\<close>

theorem pre_search_prunes:
  assumes "wf_state s" and "\<not> winning_line (board s)"
    and "2 \<le> length (open_columns (board s))"
    and "\<forall>m\<in>set (open_columns (board s)). \<not> immediate_win s m"
  shows "fst (pre_search s) = Search
       \<and> untried_moves (fst (snd (pre_search s))) =
           (if safe_moves_of s \<noteq> [] then safe_moves_of s else open_columns (board s))
       \<and> children (fst (snd (pre_search s))) = []
       \<and> visits (fst (snd (pre_search s))) = 0"
proof -
  from assms(4) have "find (immediate_win s) (open_columns (board s)) = None"
    by (simp add: find_None_iff)
  with assms(2) show ?thesis
    by (simp add: pre_search_several[OF assms(1-3)] root_untried[OF assms(1)])
qed

theorem pre_search_prunes_witness:
  "wf_state block_root \<and> \<not> winning_line (board block_root)
   \<and> open_columns (board block_root) = [0, 1, 2, 3, 4, 5, 6]
   \<and> find (immediate_win block_root) (open_columns (board block_root)) = None
   \<and> safe_moves_of block_root = [3]
   \<and> fst (pre_search block_root) = Search
   \<and> untried_moves (fst (snd (pre_search block_root))) = [3]"
proof -
  from block_root_open have t: "2 \<le> length (open_columns (board block_root))" by simp
  from block_root_no_win
  have i: "\<forall>m\<in>set (open_columns (board block_root)). \<not> immediate_win block_root m"
    by (simp add: find_None_iff)
  have s: "safe_moves_of block_root = [3]" by code_simp
  from pre_search_prunes[OF block_root_wf block_root_no_line t i] s
    block_root_wf block_root_no_line block_root_open block_root_no_win
  show ?thesis by simp
qed

section \<open>Sorting and UCT selection\<close>

lemma sorted_le_last:
  assumes "sorted ys" and "y \<in> set ys"
  shows "y \<le> last ys"
proof -
  from assms(2) obtain i where i: "i < length ys" "ys ! i = y" by (auto simp: in_set_conv_nth)
  then have "ys \<noteq> []" by auto
  then have l: "last ys = ys ! (length ys - 1)" by (simp add: last_conv_nth)
  from i have "i \<le> length ys - 1" "length ys - 1 < length ys" by simp_all
  from sorted_nth_mono[OF assms(1) this] i l show ?thesis by simp
qed

lemma last_sort_key:
  assumes "xs \<noteq> []"
  shows "last (sort_key f xs) \<in> set xs" and "\<forall>x\<in>set xs. f x \<le> f (last (sort_key f xs))"
proof -
  let ?s = "sort_key f xs"
  from assms have ne: "?s \<noteq> []" by (metis length_sort length_0_conv)
  from last_in_set[OF ne] show "last ?s \<in> set xs" by simp
  show "\<forall>x\<in>set xs. f x \<le> f (last ?s)"
  proof
    fix x assume "x \<in> set xs"
    then have "f x \<in> set (map f ?s)" by simp
    from sorted_le_last[OF sorted_sort_key this] ne show "f x \<le> f (last ?s)"
      by (simp add: last_map)
  qed
qed

lemma set_insort_by [simp]: "set (insort_by lt f x ys) = insert x (set ys)"
  by (induction ys) auto

lemma set_sorted_by [simp]: "set (sorted_by lt f xs) = set xs"
  by (induction xs) (simp_all add: sorted_by_def)

lemma sorted_by_Nil_iff [simp]: "sorted_by lt f xs = [] \<longleftrightarrow> xs = []"
  using set_sorted_by[of lt f xs] by (metis set_empty)

text \<open>
  Whatever the float operations are, \<open>uct_select_child\<close> returns one of the children, unless
  it raises.
\<close>

lemma uct_select_child_Inr:
  assumes "children (t ! n) \<noteq> []"
    and "visits (t ! n) > 0 \<or> (\<forall>c\<in>set (children (t ! n)). visits (t ! c) = 0)"
  shows "uct_select_child fl t n C
           = Inr (last (sorted_by (fl_less fl) (\<lambda>c. uct_key fl C (t ! n) (t ! c)) (children (t ! n))))"
proof -
  from assms(1)
  have "sorted_by (fl_less fl) (\<lambda>c. uct_key fl C (t ! n) (t ! c)) (children (t ! n)) \<noteq> []"
    by simp
  with assms(2) show ?thesis
    by (cases "sorted_by (fl_less fl) (\<lambda>c. uct_key fl C (t ! n) (t ! c)) (children (t ! n))")
       (auto simp: uct_select_child_def)
qed

lemma uct_select_child_member:
  assumes "children (t ! n) \<noteq> []"
    and "visits (t ! n) > 0 \<or> (\<forall>c\<in>set (children (t ! n)). visits (t ! c) = 0)"
  shows "\<exists>c\<in>set (children (t ! n)). uct_select_child fl t n C = Inr c"
proof -
  let ?s = "sorted_by (fl_less fl) (\<lambda>c. uct_key fl C (t ! n) (t ! c)) (children (t ! n))"
  from assms(1) have "?s \<noteq> []" by simp
  from last_in_set[OF this] have "last ?s \<in> set (children (t ! n))" by simp
  with uct_select_child_Inr[OF assms, of fl C] show ?thesis by auto
qed

section \<open>Float arithmetic and the choice of uct_select_child\<close>

lemma rne_bounds: "\<lfloor>x\<rfloor> \<le> rne x" "rne x \<le> \<lfloor>x\<rfloor> + 1"
  by (simp_all add: rne_def Let_def)

lemma rne_of_int [simp]: "rne (of_int n) = n"
  by (simp add: rne_def Let_def)

lemma rnd53_0 [simp]: "rnd53 0 = 0"
  by (simp add: rnd53_def)

lemma rnd53_binade:
  assumes x: "0 < x" and e: "\<lfloor>log 2 x\<rfloor> = e" and n: "- 1022 \<le> e"
  shows "2 powr of_int e \<le> rnd53 x" and "rnd53 x \<le> 2 powr of_int (e + 1)"
proof -
  from x e n have u: "ulp x = 2 powr of_int (e - 52)" by (simp add: ulp_def max_def)
  have up: "0 < ulp x" unfolding u by simp
  from e x have b: "2 powr of_int e \<le> x" "x < 2 powr of_int (e + 1)"
    using floor_log_eq_powr_iff[of x 2 e] by simp_all
  have q1: "2 powr 52 \<le> x / ulp x"
  proof -
    have "2 powr 52 * ulp x = 2 powr of_int e" unfolding u
      by (simp add: powr_diff powr_add)
    with b(1) up show ?thesis by (simp add: pos_le_divide_eq)
  qed
  have q2: "x / ulp x < 2 powr 53"
  proof -
    have "2 powr 53 * ulp x = 2 powr of_int (e + 1)" unfolding u
      by (simp add: powr_diff powr_add)
    with b(2) up show ?thesis by (simp add: pos_divide_less_eq)
  qed
  have p52: "(2::real) powr 52 = of_int (2 ^ 52)" and p53: "(2::real) powr 53 = of_int (2 ^ 53)"
    by simp_all
  from q1 have "(2::int) ^ 52 \<le> \<lfloor>x / ulp x\<rfloor>" unfolding p52 by (simp only: le_floor_iff)
  with rne_bounds(1)[of "x / ulp x"] have r1: "(2::int) ^ 52 \<le> rne (x / ulp x)" by linarith
  from q2 have "\<lfloor>x / ulp x\<rfloor> < (2::int) ^ 53" unfolding p53 by (simp only: floor_less_iff)
  with rne_bounds(2)[of "x / ulp x"] have r2: "rne (x / ulp x) \<le> (2::int) ^ 53" by linarith
  from x have rd: "rnd53 x = of_int (rne (x / ulp x)) * ulp x" by (simp add: rnd53_def)
  from r1 have "(2::real) powr 52 \<le> of_int (rne (x / ulp x))" unfolding p52 by (simp only: of_int_le_iff)
  with up have "2 powr 52 * ulp x \<le> rnd53 x" unfolding rd by (simp only: mult_le_cancel_right_pos)
  moreover have "2 powr 52 * ulp x = 2 powr of_int e" unfolding u by (simp add: powr_diff powr_add)
  ultimately show "2 powr of_int e \<le> rnd53 x" by simp
  from r2 have "of_int (rne (x / ulp x)) \<le> (2::real) powr 53" unfolding p53 by (simp only: of_int_le_iff)
  with up have "rnd53 x \<le> 2 powr 53 * ulp x" unfolding rd by (simp only: mult_le_cancel_right_pos)
  moreover have "2 powr 53 * ulp x = 2 powr of_int (e + 1)" unfolding u by (simp add: powr_diff powr_add)
  ultimately show "rnd53 x \<le> 2 powr of_int (e + 1)" by simp
qed


lemma rnd53_power_of_two:
  assumes "- 1022 \<le> e"
  shows "rnd53 (2 powr of_int e) = 2 powr of_int e"
proof -
  let ?x = "2 powr of_int e :: real"
  have l: "\<lfloor>log 2 \<bar>?x\<bar>\<rfloor> = e" by simp
  with assms have u: "ulp ?x = 2 powr of_int (e - 52)" by (simp add: ulp_def max_def)
  have "?x / ulp ?x = of_int (2 ^ 52)" unfolding u by (simp add: powr_diff)
  then have "rne (?x / ulp ?x) = 2 ^ 52" by (simp only: rne_of_int)
  then have "rnd53 ?x = of_int (2 ^ 52) * ulp ?x" by (simp add: rnd53_def)
  also have "\<dots> = ?x" unfolding u by (simp add: powr_diff)
  finally show ?thesis .
qed

lemma rnd53_between:
  assumes lo: "2 powr of_int i \<le> x" and hi: "x \<le> 2 powr of_int j" and n: "- 1022 \<le> i"
  shows "2 powr of_int i \<le> rnd53 x \<and> rnd53 x \<le> 2 powr of_int j"
proof -
  have p: "0 < (2::real) powr of_int i" by simp
  with lo have x: "0 < x" by linarith
  define e where "e = \<lfloor>log 2 x\<rfloor>"
  from lo x have "of_int i \<le> log 2 x" by (simp add: le_log_iff)
  then have ie: "i \<le> e" unfolding e_def by (simp add: le_floor_iff)
  with n have ne: "- 1022 \<le> e" by simp
  from rnd53_binade[OF x e_def[symmetric] ne]
  have b: "2 powr of_int e \<le> rnd53 x" "rnd53 x \<le> 2 powr of_int (e + 1)" by simp_all
  from ie have "(2::real) powr of_int i \<le> 2 powr of_int e" by simp
  with b(1) have lower: "2 powr of_int i \<le> rnd53 x" by linarith
  have upper: "rnd53 x \<le> 2 powr of_int j"
  proof (cases "x = 2 powr of_int j")
    case True
    from lo x True have "i \<le> j" by simp
    with n have "- 1022 \<le> j" by simp
    from rnd53_power_of_two[OF this] True show ?thesis by simp
  next
    case False
    with hi have "x < 2 powr of_int j" by simp
    with x have "log 2 x < of_int j" by (simp add: log_less_iff)
    then have "e < j" unfolding e_def by (simp add: floor_less_iff)
    then have "(2::real) powr of_int (e + 1) \<le> 2 powr of_int j" by simp
    with b(2) show ?thesis by linarith
  qed
  from lower upper show ?thesis by simp
qed

lemma overflow_threshold_powr: "overflow_threshold = 2 powr of_int 1024"
  unfolding overflow_threshold_def by (rule arg_cong[of _ _ "\<lambda>a. 2 powr a"]) simp

lemma overflow_threshold_pos: "0 < overflow_threshold"
  unfolding overflow_threshold_def by (subst powr_gt_zero) simp

lemma to_double_between:
  assumes "2 powr of_int i \<le> x" and "x \<le> 2 powr of_int j" and "- 1022 \<le> i" and "j < 1024"
  shows "\<exists>y. to_double x = Fin y \<and> 2 powr of_int i \<le> y \<and> y \<le> 2 powr of_int j"
proof -
  from rnd53_between[OF assms(1-3)]
  have b: "2 powr of_int i \<le> rnd53 x" "rnd53 x \<le> 2 powr of_int j" by simp_all
  have "(2::real) powr of_int j < 2 powr of_int 1024"
    by (rule powr_less_mono) (use assms(4) in simp_all)
  then have "(2::real) powr of_int j < overflow_threshold"
    by (simp only: overflow_threshold_powr)
  with b(2) have h: "rnd53 x < overflow_threshold" by linarith
  have "0 < (2::real) powr of_int i" by (subst powr_gt_zero) simp
  with b(1) have "0 < rnd53 x" by linarith
  with overflow_threshold_pos have l: "\<not> rnd53 x \<le> - overflow_threshold" by linarith
  from h l have "to_double x = Fin (rnd53 x)" by (simp add: to_double_def)
  with b show ?thesis by simp
qed

lemma to_double_overflow:
  assumes "overflow_threshold \<le> x"
  shows "to_double x = PInf"
proof -
  from assms have lo: "2 powr of_int 1024 \<le> x" by (simp only: overflow_threshold_powr)
  from assms overflow_threshold_pos have x: "0 < x" by linarith
  define j where "j = \<lfloor>log 2 x\<rfloor> + 1"
  have "x < 2 powr of_int j"
    unfolding j_def using floor_log_eq_powr_iff[of x 2 "\<lfloor>log 2 x\<rfloor>"] x by simp
  then have hi: "x \<le> 2 powr of_int j" by simp
  have "- 1022 \<le> (1024::int)" by simp
  from rnd53_between[OF lo hi this] have "2 powr of_int 1024 \<le> rnd53 x" by (rule conjunct1)
  then have "overflow_threshold \<le> rnd53 x" by (simp only: overflow_threshold_powr)
  then show ?thesis by (simp add: to_double_def)
qed

lemma to_double_0 [simp]: "to_double 0 = Fin 0"
  using overflow_threshold_pos by (simp add: to_double_def)

lemma to_double_1 [simp]: "to_double 1 = Fin 1"
  using to_double_between[of 0 1 0] by auto


lemma uct_node_fields [simp]:
  "children (uct_node par cs w v) = cs" "wins (uct_node par cs w v) = w"
  "visits (uct_node par cs w v) = v"
  by (simp_all add: uct_node_def)

lemma py_double_ops [simp]:
  "fl_num py_double = to_double" "fl_add py_double = double_add" "fl_mul py_double = double_mul"
  "fl_div py_double = double_div" "fl_sqrt py_double = double_sqrt"
  "fl_log py_double = double_log" "fl_inf py_double = PInf" "fl_less py_double = double_less"
  by (simp_all add: py_double_def)

lemma exp_4_le: "exp (4::real) \<le> 81"
proof -
  have "exp (4::real) = exp 1 ^ 4" using exp_of_nat_mult[of 4 "1::real"] by simp
  also have "\<dots> \<le> 3 ^ 4" by (rule power_mono) (use exp_le in simp_all)
  finally show ?thesis by simp
qed

text \<open>
  With \<open>C = 2.0 ** 1023\<close>, a node of 1000 visits and a child of one visit, the product
  \<open>C * sqrt(log(1000) / 1)\<close> overflows, and the key of the visited child is \<open>inf\<close>.
\<close>

lemma overflow_key:
  "uct_key py_double overflow_C (overflow_tree ! 0) (overflow_tree ! 2) = PInf"
proof -
  from to_double_between[of 9 1000 10] obtain a where
    a: "to_double 1000 = Fin a" "512 \<le> a" "a \<le> 1024" by auto
  from a(2) have apos: "0 < a" by simp
  from a(2) exp_4_le have "exp 4 \<le> a" by linarith
  with apos have l1: "4 \<le> ln a" by (simp add: ln_ge_iff)
  from ln_le_minus_one[OF apos] a(3) have l2: "ln a \<le> 1024" by linarith
  from to_double_between[of 2 "ln a" 10] l1 l2 obtain b where
    b: "to_double (ln a) = Fin b" "4 \<le> b" "b \<le> 1024" by auto
  from to_double_between[of 2 b 10] b(2,3) obtain d where
    d: "to_double b = Fin d" "4 \<le> d" "d \<le> 1024" by auto
  from d(2) have "2\<^sup>2 \<le> d" by simp
  then have s1: "2 \<le> sqrt d" by (rule real_le_rsqrt)
  from d(3) have "d \<le> 32\<^sup>2" by simp
  then have s2: "sqrt d \<le> 32" by (intro real_le_lsqrt) simp_all
  from to_double_between[of 1 "sqrt d" 5] s1 s2 obtain s where
    s: "to_double (sqrt d) = Fin s" "2 \<le> s" "s \<le> 32" by auto
  have "overflow_threshold = 2 powr 1023 * 2"
    unfolding overflow_threshold_def using powr_add[of "2::real" 1023 1] by simp
  also from s(2) have "\<dots> \<le> 2 powr 1023 * s" by (intro mult_left_mono) simp_all
  finally have m: "to_double (2 powr 1023 * s) = PInf" by (rule to_double_overflow)
  have v: "visits (overflow_tree ! 0) = 1000" "visits (overflow_tree ! 2) = 1"
    "wins (overflow_tree ! 2) = 0" by (simp_all add: overflow_tree_def)
  from apos d(2) have "double_log (Fin a) = Fin b" "double_div (Fin b) (Fin 1) = Fin d"
    "double_sqrt (Fin d) = Fin s" using b(1) d(1) s(1) by simp_all
  with a(1) m show ?thesis by (simp add: uct_key_def v overflow_C_def)
qed


text \<open>The comparison of doubles is a strict weak order on every set of keys without NaN.\<close>

lemma double_less_asym: "double_less a b \<Longrightarrow> \<not> double_less b a"
  by (cases a; cases b) simp_all

lemma double_less_between:
  "b \<noteq> NaN \<Longrightarrow> double_less a c \<Longrightarrow> double_less a b \<or> double_less b c"
  by (cases a; cases b; cases c) auto

lemma double_less_weak_order:
  assumes "NaN \<notin> K"
  shows "weak_order_on double_less K"
  unfolding weak_order_on_def
proof (intro conjI ballI impI)
  fix a b assume "double_less a b"
  then show "\<not> double_less b a" by (rule double_less_asym)
next
  fix a b c assume "b \<in> K" and "double_less a c"
  with assms have "b \<noteq> NaN" by blast
  from double_less_between[OF this \<open>double_less a c\<close>]
  show "double_less a b \<or> double_less b c" .
qed

text \<open>
  Sorting by a comparison that is a strict weak order on the keys puts an element of
  greatest key last.
\<close>

lemma insort_by_sorted:
  assumes wo: "weak_order_on lt (f ` S)" and x: "x \<in> S"
  shows "set ys \<subseteq> S \<Longrightarrow> sorted_wrt (\<lambda>a b. \<not> lt (f b) (f a)) ys
         \<Longrightarrow> sorted_wrt (\<lambda>a b. \<not> lt (f b) (f a)) (insort_by lt f x ys)"
proof (induction ys)
  case Nil
  show ?case by simp
next
  case (Cons y ys)
  from Cons.prems(1) have y: "y \<in> S" and ys: "set ys \<subseteq> S" by simp_all
  from Cons.prems(2) have below: "\<forall>z\<in>set ys. \<not> lt (f z) (f y)"
    and so: "sorted_wrt (\<lambda>a b. \<not> lt (f b) (f a)) ys" by simp_all
  from wo have asym: "\<And>a b. a \<in> S \<Longrightarrow> b \<in> S \<Longrightarrow> lt (f a) (f b) \<Longrightarrow> \<not> lt (f b) (f a)"
    and nt: "\<And>a b c. a \<in> S \<Longrightarrow> b \<in> S \<Longrightarrow> c \<in> S \<Longrightarrow> lt (f a) (f c)
                 \<Longrightarrow> lt (f a) (f b) \<or> lt (f b) (f c)"
    unfolding weak_order_on_def by blast+
  show ?case
  proof (cases "lt (f y) (f x)")
    case True
    from asym[OF y x True] have "\<not> lt (f x) (f y)" .
    with below have "\<forall>z\<in>set (insort_by lt f x ys). \<not> lt (f z) (f y)" by simp
    with Cons.IH[OF ys so] True show ?thesis by simp
  next
    case False
    have "\<not> lt (f z) (f x)" if "z \<in> set ys" for z
    proof
      assume "lt (f z) (f x)"
      from that ys have "z \<in> S" by blast
      from nt[OF this y x \<open>lt (f z) (f x)\<close>] below that False show False by blast
    qed
    with False Cons.prems(2) show ?thesis by simp
  qed
qed

lemma sorted_by_sorted:
  assumes wo: "weak_order_on lt (f ` S)"
  shows "set xs \<subseteq> S \<Longrightarrow> sorted_wrt (\<lambda>a b. \<not> lt (f b) (f a)) (sorted_by lt f xs)"
proof (induction xs)
  case Nil
  show ?case by (simp add: sorted_by_def)
next
  case (Cons x xs)
  then have "x \<in> S" "set (sorted_by lt f xs) \<subseteq> S"
    and "sorted_wrt (\<lambda>a b. \<not> lt (f b) (f a)) (sorted_by lt f xs)" by simp_all
  from insort_by_sorted[OF wo this] show ?case by (simp add: sorted_by_def)
qed

lemma sorted_wrt_last:
  assumes "sorted_wrt R ys" and "y \<in> set ys"
  shows "y = last ys \<or> R y (last ys)"
  using assms
proof (induction ys)
  case Nil
  then show ?case by simp
next
  case (Cons z zs)
  show ?case
  proof (cases "zs = []")
    case True
    with Cons.prems show ?thesis by simp
  next
    case False
    then have l: "last (z # zs) = last zs" and m: "last zs \<in> set zs" by simp_all
    from Cons.prems(2) consider "y = z" | "y \<in> set zs" by auto
    then show ?thesis
    proof cases
      case 1
      with Cons.prems(1) m l show ?thesis by simp
    next
      case 2
      with Cons.IH Cons.prems(1) l show ?thesis by simp
    qed
  qed
qed

lemma last_sorted_by_greatest:
  assumes wo: "weak_order_on lt (f ` set xs)" and d: "d \<in> set xs"
  shows "\<not> lt (f (last (sorted_by lt f xs))) (f d)"
proof -
  let ?s = "sorted_by lt f xs"
  from d have ne: "?s \<noteq> []" by auto
  from last_in_set[OF ne] have l: "last ?s \<in> set xs" by simp
  from d have "d \<in> set ?s" by simp
  from sorted_wrt_last[OF sorted_by_sorted[OF wo subset_refl] this]
  consider "d = last ?s" | "\<not> lt (f (last ?s)) (f d)" by blast
  then show ?thesis
  proof cases
    case 1
    from wo l have "lt (f (last ?s)) (f (last ?s)) \<longrightarrow> \<not> lt (f (last ?s)) (f (last ?s))"
      unfolding weak_order_on_def by blast
    with 1 show ?thesis by auto
  next
    case 2
    then show ?thesis .
  qed
qed

text \<open>
  Claim C7, as stated: \<open>uct_select_child\<close> returns a child of greatest score
  \<open>wins/visits + C * sqrt(ln(parent visits) / visits)\<close>, an unvisited child counting as
  infinite, so that it returns an unvisited child whenever there is one. It fails in float
  arithmetic: on a node of 1000 visits whose children are an unvisited node (address 1)
  and a node of one visit and no win (address 2), with \<open>C = 2.0 ** 1023\<close>, the score of the
  visited child overflows to \<open>inf\<close>, the two keys are equal, the stable sort keeps the
  children in their order, and the visited child, the last one, is returned.
\<close>

theorem uct_select_child_counterexample:
  "children (overflow_tree ! 0) = [1, 2] \<and> visits (overflow_tree ! 0) = 1000
   \<and> visits (overflow_tree ! 1) = 0
   \<and> visits (overflow_tree ! 2) = 1 \<and> wins (overflow_tree ! 2) = 0
   \<and> uct_key py_double overflow_C (overflow_tree ! 0) (overflow_tree ! 1) = PInf
   \<and> uct_key py_double overflow_C (overflow_tree ! 0) (overflow_tree ! 2) = PInf
   \<and> uct_select_child py_double overflow_tree 0 overflow_C = Inr 2"
proof -
  have f: "children (overflow_tree ! 0) = [1, 2]" "visits (overflow_tree ! 0) = 1000"
    "visits (overflow_tree ! 1) = 0" "visits (overflow_tree ! 2) = 1"
    "wins (overflow_tree ! 2) = 0" by (simp_all add: overflow_tree_def)
  from f(3) have k1: "uct_key py_double overflow_C (overflow_tree ! 0) (overflow_tree ! 1) = PInf"
    by (simp add: uct_key_def)
  note k2 = overflow_key
  have "uct_select_child py_double overflow_tree 0 overflow_C = Inr 2"
    by (simp add: uct_select_child_def sorted_by_def f k1 k2 del: One_nat_def)
  with f k1 k2 show ?thesis by simp
qed

text \<open>
  Claim C7, amended: when \<open>uct_select_child\<close> does not raise and the float comparison \<open><\<close> is
  a strict weak order on the keys of the children (as it is on floats other than NaN), the
  child returned is one whose key, computed in float arithmetic as
  \<open>wins/visits + C * sqrt(log(parent visits) / visits)\<close> and \<open>inf\<close> for an unvisited child,
  is not below the key of any child; and when some child is unvisited and the key of every
  visited child is below \<open>inf\<close> (no overflow), the child returned is unvisited.
\<close>

theorem uct_select_child_maximal:
  assumes "children (t ! n) \<noteq> []"
    and "visits (t ! n) > 0 \<or> (\<forall>c\<in>set (children (t ! n)). visits (t ! c) = 0)"
    and "weak_order_on (fl_less fl) ((\<lambda>c. uct_key fl C (t ! n) (t ! c)) ` set (children (t ! n)))"
  shows "\<exists>c\<in>set (children (t ! n)).
           uct_select_child fl t n C = Inr c
           \<and> (\<forall>d\<in>set (children (t ! n)).
                 \<not> fl_less fl (uct_key fl C (t ! n) (t ! c)) (uct_key fl C (t ! n) (t ! d)))
           \<and> ((\<exists>d\<in>set (children (t ! n)). visits (t ! d) = 0)
                \<and> (\<forall>d\<in>set (children (t ! n)). visits (t ! d) > 0 \<longrightarrow>
                      fl_less fl (uct_key fl C (t ! n) (t ! d)) (fl_inf fl))
               \<longrightarrow> visits (t ! c) = 0)"
proof -
  let ?key = "\<lambda>c. uct_key fl C (t ! n) (t ! c)"
  let ?c = "last (sorted_by (fl_less fl) ?key (children (t ! n)))"
  from assms(1) have "sorted_by (fl_less fl) ?key (children (t ! n)) \<noteq> []" by simp
  from last_in_set[OF this] have m: "?c \<in> set (children (t ! n))" by simp
  from uct_select_child_Inr[OF assms(1,2), of fl C]
  have r: "uct_select_child fl t n C = Inr ?c" .
  have g: "\<forall>d\<in>set (children (t ! n)). \<not> fl_less fl (?key ?c) (?key d)"
    using last_sorted_by_greatest[OF assms(3)] by blast
  have u: "visits (t ! ?c) = 0"
    if d: "d \<in> set (children (t ! n))" "visits (t ! d) = 0"
      and b: "\<forall>d\<in>set (children (t ! n)). visits (t ! d) > 0 \<longrightarrow>
                 fl_less fl (?key d) (fl_inf fl)" for d
  proof (rule ccontr)
    assume "visits (t ! ?c) \<noteq> 0"
    with b m have "fl_less fl (?key ?c) (fl_inf fl)" by simp
    moreover from d(2) have "?key d = fl_inf fl" by (simp add: uct_key_def)
    moreover from g d(1) have "\<not> fl_less fl (?key ?c) (?key d)" by blast
    ultimately show False by simp
  qed
  from m r g u show ?thesis by blast
qed

theorem uct_select_child_maximal_witness:
  "children (unvisited_tree ! 0) = [1, 2] \<and> visits (unvisited_tree ! 0) = 1
   \<and> visits (unvisited_tree ! 1) = 0 \<and> visits (unvisited_tree ! 2) = 1
   \<and> uct_key py_double (Fin 1) (unvisited_tree ! 0) (unvisited_tree ! 1) = PInf
   \<and> uct_key py_double (Fin 1) (unvisited_tree ! 0) (unvisited_tree ! 2) = Fin 1
   \<and> uct_select_child py_double unvisited_tree 0 (Fin 1) = Inr 1"
proof -
  let ?t = unvisited_tree
  have f: "children (?t ! 0) = [1, 2]" "visits (?t ! 0) = 1" "visits (?t ! 1) = 0"
    "visits (?t ! 2) = 1" "wins (?t ! 2) = 1" by (simp_all add: unvisited_tree_def)
  have k1: "uct_key py_double (Fin 1) (?t ! 0) (?t ! 1) = PInf"
    by (simp add: uct_key_def f del: One_nat_def)
  have k2: "uct_key py_double (Fin 1) (?t ! 0) (?t ! 2) = Fin 1" by (simp add: uct_key_def f)
  have wo: "weak_order_on (fl_less py_double)
              ((\<lambda>c. uct_key py_double (Fin 1) (?t ! 0) (?t ! c)) ` set (children (?t ! 0)))"
    by (simp add: weak_order_on_def f k1 k2 del: One_nat_def)
  from uct_select_child_maximal[of ?t 0 py_double "Fin 1", OF _ _ wo] f
  obtain c where c: "c \<in> set (children (?t ! 0))"
    "uct_select_child py_double ?t 0 (Fin 1) = Inr c"
    "(\<exists>d\<in>set (children (?t ! 0)). visits (?t ! d) = 0)
       \<and> (\<forall>d\<in>set (children (?t ! 0)). visits (?t ! d) > 0 \<longrightarrow>
             fl_less py_double (uct_key py_double (Fin 1) (?t ! 0) (?t ! d)) (fl_inf py_double))
     \<longrightarrow> visits (?t ! c) = 0" by auto
  from c(3) f k2 have "visits (?t ! c) = 0" by simp
  with c(1) f have "c = 1" by auto
  with c(2) f k1 k2 show ?thesis by simp
qed

section \<open>Termination of the rollout\<close>

lemma row_blanks_update:
  "c < length row \<Longrightarrow> row ! c = e \<Longrightarrow> tok \<noteq> e \<Longrightarrow>
   Suc (length (filter (\<lambda>x. x = e) (row[c := tok]))) = length (filter (\<lambda>x. x = e) row)"
  by (induction row arbitrary: c) (auto split: nat.splits)

lemma blanks_place:
  assumes r: "r < length b" and c: "c < length (b ! r)" and e: "b ! r ! c = empty_cell"
    and tok: "tok \<noteq> empty_cell"
  shows "blanks (place b r c tok) < blanks b"
proof -
  let ?f = "\<lambda>row. length (filter (\<lambda>x. x = empty_cell) row)"
  have "map ?f (place b r c tok) = (map ?f b)[r := ?f ((b ! r)[c := tok])]"
    by (simp add: place_def map_update)
  then have "blanks (place b r c tok) = sum_list (map ?f b) + ?f ((b ! r)[c := tok]) - ?f (b ! r)"
    using r by (simp add: blanks_def sum_list_update)
  moreover from row_blanks_update[OF c e tok] have "Suc (?f ((b ! r)[c := tok])) = ?f (b ! r)" .
  moreover have "?f (b ! r) \<le> sum_list (map ?f b)"
    using r by (intro member_le_sum_list) auto
  ultimately show ?thesis by (simp add: blanks_def)
qed

lemma choice_mem: "xs \<noteq> [] \<Longrightarrow> choice rnd k xs \<in> set xs"
  by (simp add: choice_def)

lemma rollout_step_blanks:
  assumes w: "wf_state s" and m: "m \<in> set (open_columns (board s))"
  shows "blanks (board (snd (make_move s m))) < blanks (board s)"
proof -
  from make_move_open[OF m] obtain r where r: "r < 6" "board s ! r ! nat m = empty_cell"
    and mm: "make_move s m = (True, s\<lparr>available_moves := open_columns (board s),
                               board := place (board s) r (nat m) (current_player s),
                               current_turn := current_turn s + 1\<rparr>)" by blast
  from w have sh: "board_shape (board s)" by (simp add: wf_state_def)
  from m have "nat m < 7" by (auto simp: open_columns_iff)
  with r sh have "r < length (board s)" "nat m < length (board s ! r)" by (simp_all add: board_shapeD)
  from blanks_place[OF this r(2) current_player_not_blank[OF w]] mm show ?thesis by simp
qed

lemma rollout_terminates:
  "wf_state st \<Longrightarrow> \<exists>st' k'. rollout rnd st k = Some (st', k') \<and> wf_state st'"
proof (induction "blanks (board st)" arbitrary: st k rule: less_induct)
  case less
  show ?case
  proof (cases "game_over st")
    case True
    with less.prems show ?thesis by (subst rollout.simps) simp
  next
    case notover: False
    show ?thesis
    proof (cases "open_columns (board st) = []")
      case True
      with notover less.prems show ?thesis
        by (subst rollout.simps) (simp add: get_available_moves_self wf_state_def)
    next
      case False
      let ?m = "choice rnd k (open_columns (board st))"
      let ?st = "snd (check_winstate (snd (make_move st ?m)))"
      from choice_mem[OF False] have m: "?m \<in> set (open_columns (board st))" .
      have w: "wf_state ?st"
        by (intro check_winstate_preserves_wf make_move_preserves_wf less.prems)
      have "blanks (board ?st) < blanks (board st)"
        using rollout_step_blanks[OF less.prems m] by simp
      from less.hyps[OF this w, of "k + 1"] obtain st' k' where
        "rollout rnd ?st (k + 1) = Some (st', k')" "wf_state st'" by blast
      with notover False show ?thesis
        by (subst rollout.simps) (simp add: get_available_moves_self)
    qed
  qed
qed

section \<open>The tree in the store\<close>

lemma update_fields [simp]:
  "parent (update n r) = parent n" "children (update n r) = children n"
  "untried_moves (update n r) = untried_moves n" "visits (update n r) = visits n + 1"
  "move (update n r) = move n"
  by (simp_all add: update_def)

text \<open>An update in place of one node's statistics leaves all links as they are.\<close>

lemma bump_links [simp]:
  "parent (t[x := update (t ! x) r] ! i) = parent (t ! i)"
  "children (t[x := update (t ! x) r] ! i) = children (t ! i)"
  "untried_moves (t[x := update (t ! x) r] ! i) = untried_moves (t ! i)"
  "move (t[x := update (t ! x) r] ! i) = move (t ! i)"
proof -
  have "t[x := update (t ! x) r] ! i = (if i = x \<and> x < length t then update (t ! x) r else t ! i)"
    by (cases "x < length t") (auto simp: nth_list_update list_update_beyond)
  then show "parent (t[x := update (t ! x) r] ! i) = parent (t ! i)"
    "children (t[x := update (t ! x) r] ! i) = children (t ! i)"
    "untried_moves (t[x := update (t ! x) r] ! i) = untried_moves (t ! i)"
    "move (t[x := update (t ! x) r] ! i) = move (t ! i)"
    by auto
qed

lemma bump_visits:
  "x < length t \<Longrightarrow>
   visits (t[x := update (t ! x) r] ! i) = (if i = x then visits (t ! x) + 1 else visits (t ! i))"
  by simp

lemma tree_shapeD:
  assumes "tree_shape t"
  shows "0 < length t" and "parent (t ! 0) = None"
    and "i < length t \<Longrightarrow> 0 < i \<Longrightarrow> \<exists>p<i. parent (t ! i) = Some p \<and> i \<in> set (children (t ! p))"
    and "i < length t \<Longrightarrow> distinct (children (t ! i))"
    and "i < length t \<Longrightarrow> c \<in> set (children (t ! i)) \<Longrightarrow> c < length t"
    and "i < length t \<Longrightarrow> c \<in> set (children (t ! i)) \<Longrightarrow> parent (t ! c) = Some i"
  using assms by (auto simp: tree_shape_def)

lemma child_above:
  assumes "tree_shape t" "i < length t" "c \<in> set (children (t ! i))"
  shows "i < c"
proof -
  from tree_shapeD(5,6)[OF assms] have c: "c < length t" "parent (t ! c) = Some i" by simp_all
  with tree_shapeD(2)[OF assms(1)] have "0 < c" by (cases "c = 0") auto
  from tree_shapeD(3)[OF assms(1) c(1) this] c(2) show ?thesis by auto
qed

lemma tree_shape_bump: "tree_shape t \<Longrightarrow> tree_shape (t[x := update (t ! x) r])"
  by (simp add: tree_shape_def)

lemma root_live_bump: "root_live (t[x := update (t ! x) r]) = root_live t"
  by (simp add: root_live_def)

lemma sum_visits_other:
  "x \<notin> set cs \<Longrightarrow>
   sum_list (map (\<lambda>c. visits (t[x := u] ! c)) cs) = sum_list (map (\<lambda>c. visits (t ! c)) cs)"
  by (induction cs) auto

lemma sum_visits_bump:
  "distinct cs \<Longrightarrow> x \<in> set cs \<Longrightarrow> x < length t \<Longrightarrow>
   sum_list (map (\<lambda>c. visits (t[x := update (t ! x) r] ! c)) cs)
     = sum_list (map (\<lambda>c. visits (t ! c)) cs) + 1"
proof (induction cs)
  case Nil
  then show ?case by simp
next
  case (Cons a cs)
  show ?case
  proof (cases "a = x")
    case True
    with Cons.prems have "x \<notin> set cs" by simp
    with True Cons.prems(3) show ?thesis by (simp add: sum_visits_other)
  next
    case False
    with Cons.prems have "distinct cs" "x \<in> set cs" by simp_all
    from Cons.IH[OF this Cons.prems(3)] False show ?thesis by simp
  qed
qed

lemma child_visits_bump:
  assumes "distinct (children (t ! i))" "x < length t"
  shows "child_visits (t[x := update (t ! x) r]) i =
           (if x \<in> set (children (t ! i)) then child_visits t i + 1 else child_visits t i)"
  using assms by (simp add: child_visits_def sum_visits_bump sum_visits_other)

section \<open>Backpropagation\<close>

lemma pendingD:
  assumes "pending t x"
  shows "tree_shape t" "root_live t" "x < length t"
    and "x = 0 \<Longrightarrow> visits (t ! 0) + 1 = child_visits t 0"
    and "x \<noteq> 0 \<Longrightarrow> visits (t ! 0) = child_visits t 0"
    and "x \<noteq> 0 \<Longrightarrow> child_visits t x \<le> visits (t ! x)"
    and "i < length t \<Longrightarrow> 0 < i \<Longrightarrow> i \<noteq> x \<Longrightarrow> child_visits t i < visits (t ! i)"
  using assms by (auto simp: pending_def split: if_splits)

lemma not_own_child:
  assumes "tree_shape t" "i < length t"
  shows "i \<notin> set (children (t ! i))"
  using child_above[OF assms, of i] by auto

lemma child_of_parent_only:
  assumes sh: "tree_shape t" and i: "i < length t" and x: "x \<in> set (children (t ! i))"
    and p: "parent (t ! x) = Some p"
  shows "i = p"
  using tree_shapeD(6)[OF sh i x] p by simp

lemma backpropagate_root:
  assumes "pending t 0"
  shows "backpropagate t (Some 0) w = Some (t[0 := update (t ! 0) (credit (t ! 0) w)])"
    and "search_inv (t[0 := update (t ! 0) (credit (t ! 0) w)])"
proof -
  let ?t = "t[0 := update (t ! 0) (credit (t ! 0) w)]"
  note sh = pendingD(1)[OF assms]
  from pendingD(3)[OF assms] have len: "0 < length t" .
  from tree_shapeD(2)[OF sh]
  show "backpropagate t (Some 0) w = Some ?t"
    by (subst backpropagate.simps, simp, subst backpropagate.simps, simp)
  have cv: "child_visits ?t i = child_visits t i" if "i < length t" for i
  proof -
    from child_above[OF sh that, of 0] have "0 \<notin> set (children (t ! i))" by auto
    with child_visits_bump[OF tree_shapeD(4)[OF sh that] len] show ?thesis by simp
  qed
  have "visits (?t ! 0) = child_visits ?t 0"
    using pendingD(4)[OF assms] len by (simp add: cv)
  moreover have "child_visits ?t i < visits (?t ! i)" if "i < length ?t" "0 < i" for i
    using pendingD(7)[OF assms, of i] that by (simp add: cv)
  ultimately show "search_inv ?t"
    using sh pendingD(2)[OF assms]
    unfolding search_inv_def by (simp add: tree_shape_bump root_live_bump)
qed

lemma backpropagate_step:
  assumes pe: "pending t x" and x: "0 < x" and p: "parent (t ! x) = Some p"
  shows "pending (t[x := update (t ! x) r]) p"
proof -
  let ?t = "t[x := update (t ! x) r]"
  note sh = pendingD(1)[OF pe]
  note xl = pendingD(3)[OF pe]
  from tree_shapeD(3)[OF sh xl x] p have px: "p < x" and xc: "x \<in> set (children (t ! p))" by auto
  from px xl have pl: "p < length t" by simp
  have cv: "child_visits ?t i = (if i = p then child_visits t i + 1 else child_visits t i)"
    if "i < length t" for i
  proof (cases "i = p")
    case True
    with child_visits_bump[OF tree_shapeD(4)[OF sh that] xl, of r] xc show ?thesis by simp
  next
    case False
    have "x \<notin> set (children (t ! i))"
    proof
      assume "x \<in> set (children (t ! i))"
      from child_of_parent_only[OF sh that this p] False show False by simp
    qed
    with child_visits_bump[OF tree_shapeD(4)[OF sh that] xl, of r] False show ?thesis by simp
  qed
  have vis: "visits (?t ! i) = (if i = x then visits (t ! x) + 1 else visits (t ! i))" for i
    using xl by simp
  have root: "if p = 0 then visits (?t ! 0) + 1 = child_visits ?t 0
              else visits (?t ! 0) = child_visits ?t 0 \<and> child_visits ?t p \<le> visits (?t ! p)"
  proof (cases "p = 0")
    case True
    with pendingD(5)[OF pe] x pl show ?thesis by (simp add: cv vis)
  next
    case False
    from pendingD(7)[OF pe pl] False px have "child_visits t p < visits (t ! p)" by simp
    moreover from xl have "0 < length t" by (cases t) auto
    ultimately show ?thesis using pendingD(5)[OF pe] x False px pl xl by (simp add: cv vis)
  qed
  have rest: "child_visits ?t i < visits (?t ! i)" if "i < length ?t" "0 < i \<and> i \<noteq> p" for i
  proof (cases "i = x")
    case True
    with pendingD(6)[OF pe] x that xl show ?thesis by (simp add: cv vis)
  next
    case False
    with pendingD(7)[OF pe, of i] that show ?thesis by (simp add: cv vis)
  qed
  from root rest sh pendingD(2)[OF pe] pl show ?thesis
    unfolding pending_def by (simp add: tree_shape_bump root_live_bump)
qed

lemma backpropagate_pending:
  "pending t x \<Longrightarrow>
   \<exists>t'. backpropagate t (Some x) w = Some t' \<and> search_inv t'
        \<and> visits (t' ! 0) = visits (t ! 0) + 1 \<and> length t' = length t"
proof (induction x arbitrary: t rule: less_induct)
  case (less x)
  show ?case
  proof (cases "x = 0")
    case True
    with less.prems have p0: "pending t 0" by simp
    from pendingD(3)[OF p0] have "0 < length t" .
    with backpropagate_root[OF p0, of w] True show ?thesis by simp
  next
    case False
    note sh = pendingD(1)[OF less.prems]
    note xl = pendingD(3)[OF less.prems]
    from tree_shapeD(3)[OF sh xl] False obtain p where p: "p < x" "parent (t ! x) = Some p" by auto
    let ?t = "t[x := update (t ! x) (credit (t ! x) w)]"
    from backpropagate_step[OF less.prems _ p(2)] False have "pending ?t p" by simp
    from less.IH[OF p(1) this] obtain t' where
      t': "backpropagate ?t (Some p) w = Some t'" "search_inv t'"
          "visits (t' ! 0) = visits (?t ! 0) + 1" "length t' = length ?t" by blast
    have "backpropagate t (Some x) w = backpropagate ?t (Some p) w"
      by (subst backpropagate.simps) (simp add: p(2))
    with t' False xl show ?thesis by simp
  qed
qed

section \<open>Selection\<close>

lemma search_invD:
  assumes "search_inv t"
  shows "tree_shape t" "root_live t" "visits (t ! 0) = child_visits t 0"
    and "i < length t \<Longrightarrow> 0 < i \<Longrightarrow> child_visits t i < visits (t ! i)"
  using assms by (auto simp: search_inv_def)

lemma visited_or_fresh:
  assumes "search_inv t" "n < length t"
  shows "visits (t ! n) > 0 \<or> (\<forall>c\<in>set (children (t ! n)). visits (t ! c) = 0)"
proof (cases "n = 0")
  case True
  show ?thesis
  proof (cases "visits (t ! 0) = 0")
    case True
    with search_invD(3)[OF assms(1)] have "child_visits t 0 = 0" by simp
    then have "\<forall>c\<in>set (children (t ! 0)). visits (t ! c) = 0" by (simp add: child_visits_def)
    with \<open>n = 0\<close> show ?thesis by simp
  next
    case False
    with \<open>n = 0\<close> show ?thesis by simp
  qed
next
  case False
  with search_invD(4)[OF assms] show ?thesis by simp
qed

lemma make_move_of_preserves_wf: "wf_state st \<Longrightarrow> wf_state (snd (make_move_of st mv))"
  by (simp add: make_move_of_def make_move_preserves_wf)

lemma selection_terminates:
  assumes inv: "search_inv t"
  shows "n < length t \<Longrightarrow> wf_state st \<Longrightarrow>
         \<exists>node st'. selection fl C t n st = Some (Inr (node, st')) \<and> node < length t \<and> n \<le> node
            \<and> wf_state st' \<and> \<not> (untried_moves (t ! node) = [] \<and> children (t ! node) \<noteq> [])"
proof (induction "length t - n" arbitrary: n st rule: less_induct)
  case less
  show ?case
  proof (cases "untried_moves (t ! n) = [] \<and> children (t ! n) \<noteq> []")
    case False
    with less.prems show ?thesis by (subst selection.simps) auto
  next
    case True
    then have ne: "children (t ! n) \<noteq> []" by simp
    from uct_select_child_member[OF ne visited_or_fresh[OF inv less.prems(1)], of fl C]
    obtain c where c: "c \<in> set (children (t ! n))" "uct_select_child fl t n C = Inr c" by blast
    note sh = search_invD(1)[OF inv]
    from child_above[OF sh less.prems(1) c(1)] tree_shapeD(5)[OF sh less.prems(1) c(1)]
    have nc: "n < c" and cl: "c < length t" by simp_all
    then have "length t - c < length t - n" by simp
    from less.hyps[OF this cl make_move_of_preserves_wf[OF less.prems(2)], of "move (t ! c)"]
    obtain node st' where
      r: "selection fl C t c (snd (make_move_of st (move (t ! c)))) = Some (Inr (node, st'))"
         "node < length t" "c \<le> node" "wf_state st'"
         "\<not> (untried_moves (t ! node) = [] \<and> children (t ! node) \<noteq> [])" by blast
    have "selection fl C t n st = selection fl C t c (snd (make_move_of st (move (t ! c))))"
      using True c(2) by (subst selection.simps) simp
    with r nc show ?thesis by auto
  qed
qed

section \<open>Expansion\<close>

text \<open>The store after \<open>add_child\<close>: the parent rewritten in place, the new node at the end.\<close>

lemma add_child_Inr:
  assumes "mv \<in> set (untried_moves (t ! n))"
  shows "add_child t n mv st =
     Inr (t[n := (t ! n)\<lparr>untried_moves := remove1 mv (untried_moves (t ! n)),
                          children := children (t ! n) @ [length t]\<rparr>]
          @ [MCTSNode_init (copy st) (Some n) (Some mv)], length t)"
  using assms by (simp add: add_child_def Let_def)

lemma grown_nth:
  assumes "n < length t"
  shows "i < length t \<Longrightarrow> (t[n := N] @ [new]) ! i = (if i = n then N else t ! i)"
    and "(t[n := N] @ [new]) ! length t = new"
  using assms by (simp_all add: nth_append nth_list_update)

lemma grown_pending:
  assumes inv: "search_inv t" and n: "n < length t"
    and N: "N = (t ! n)\<lparr>untried_moves := u, children := children (t ! n) @ [length t]\<rparr>"
    and new: "parent new = Some n" "children new = []" "visits new = 0"
  shows "pending (t[n := N] @ [new]) (length t)"
proof -
  let ?L = "length t"
  let ?t = "t[n := N] @ [new]"
  note sh = search_invD(1)[OF inv]
  from n have L0: "0 < ?L" by (cases t) auto
  have old: "?t ! i = (if i = n then N else t ! i)" if "i < ?L" for i
    using grown_nth(1)[OF n that] .
  have last: "?t ! ?L = new" using grown_nth(2)[OF n] .
  have par: "parent (?t ! i) = parent (t ! i)" if "i < ?L" for i
    using old[OF that] N by simp
  have vis: "visits (?t ! i) = visits (t ! i)" if "i < ?L" for i
    using old[OF that] N by simp
  have chi: "children (?t ! i) = (if i = n then children (t ! n) @ [?L] else children (t ! i))"
    if "i < ?L" for i
    using old[OF that] N by simp
  have below: "c < ?L" if "i < ?L" "c \<in> set (children (t ! i))" for i c
    using tree_shapeD(5)[OF sh that] .
  have sumold: "sum_list (map (\<lambda>c. visits (?t ! c)) (children (t ! i)))
                = sum_list (map (\<lambda>c. visits (t ! c)) (children (t ! i)))" if "i < ?L" for i
    by (rule arg_cong[where f = sum_list], rule map_cong[OF refl]) (simp add: vis below[OF that])
  have cv: "child_visits ?t i = child_visits t i" if "i < ?L" for i
  proof (cases "i = n")
    case True
    with sumold[OF n] show ?thesis by (simp add: child_visits_def chi[OF n] last new)
  next
    case False
    with sumold[OF that] show ?thesis by (simp add: child_visits_def chi[OF that])
  qed
  have cvL: "child_visits ?t ?L = 0" by (simp add: child_visits_def last new)
  have shape: "tree_shape ?t"
    unfolding tree_shape_def
  proof (intro conjI allI impI ballI)
    show "?t \<noteq> []" by simp
    show "parent (?t ! 0) = None" using par[OF L0] tree_shapeD(2)[OF sh] by simp
  next
    fix i assume i: "i < length ?t" "0 < i"
    show "\<exists>p<i. parent (?t ! i) = Some p \<and> i \<in> set (children (?t ! p))"
    proof (cases "i = ?L")
      case True
      with n last new chi[OF n] show ?thesis by (intro exI[of _ n]) simp
    next
      case False
      with i have il: "i < ?L" by simp
      from tree_shapeD(3)[OF sh il i(2)] obtain p where
        p: "p < i" "parent (t ! i) = Some p" "i \<in> set (children (t ! p))" by blast
      from p(1) il have "p < ?L" by simp
      from chi[OF this] p par[OF il] show ?thesis by (intro exI[of _ p]) auto
    qed
  next
    fix i assume i: "i < length ?t"
    show "distinct (children (?t ! i))"
    proof (cases "i = ?L")
      case True with last new show ?thesis by simp
    next
      case False
      with i have il: "i < ?L" by simp
      from below[OF il] have "?L \<notin> set (children (t ! i))" by auto
      with tree_shapeD(4)[OF sh il] chi[OF il] show ?thesis by (cases "i = n") simp_all
    qed
  next
    fix i c assume i: "i < length ?t" and c: "c \<in> set (children (?t ! i))"
    have il: "i < ?L" using i c last new by (cases "i = ?L") auto
    show "c < length ?t"
      using c chi[OF il] below[OF il, of c] by (auto split: if_splits)
    show "parent (?t ! c) = Some i"
    proof (cases "c = ?L")
      case True
      with c chi[OF il] below[OF il, of c] have "i = n" by (auto split: if_splits)
      with True last new show ?thesis by simp
    next
      case False
      with c chi[OF il] have c': "c \<in> set (children (t ! i))" by (auto split: if_splits)
      from par[OF below[OF il c']] tree_shapeD(6)[OF sh il c'] show ?thesis by simp
    qed
  qed
  have live: "root_live ?t"
    using search_invD(2)[OF inv] old[OF L0] N unfolding root_live_def by (auto split: if_splits)
  have root: "visits (?t ! 0) = child_visits ?t 0"
    using search_invD(3)[OF inv] by (simp add: vis[OF L0] cv[OF L0])
  have rest: "child_visits ?t i < visits (?t ! i)" if "i < length ?t" "0 < i \<and> i \<noteq> ?L" for i
  proof -
    from that have il: "i < ?L" by simp
    from search_invD(4)[OF inv il] that show ?thesis by (simp add: vis[OF il] cv[OF il])
  qed
  from shape live root rest L0 show ?thesis
    unfolding pending_def by (simp add: cvL last new)
qed

lemma expansion_pending:
  assumes inv: "search_inv t" and n: "n < length t" and u: "untried_moves (t ! n) \<noteq> []"
  shows "\<exists>t1. expansion rnd t n st k
                = Inr (t1, length t, snd (make_move st (choice rnd k (untried_moves (t ! n)))), k + 1)
            \<and> pending t1 (length t) \<and> visits (t1 ! 0) = visits (t ! 0)
            \<and> length t1 = length t + 1"
proof -
  let ?m = "choice rnd k (untried_moves (t ! n))"
  let ?st = "snd (make_move st ?m)"
  let ?N = "(t ! n)\<lparr>untried_moves := remove1 ?m (untried_moves (t ! n)),
                     children := children (t ! n) @ [length t]\<rparr>"
  let ?new = "MCTSNode_init (copy ?st) (Some n) (Some ?m)"
  let ?t1 = "t[n := ?N] @ [?new]"
  from choice_mem[OF u] have "?m \<in> set (untried_moves (t ! n))" .
  from add_child_Inr[OF this] u
  have e: "expansion rnd t n st k = Inr (?t1, length t, ?st, k + 1)"
    by (simp add: expansion_def Let_def)
  have p: "pending ?t1 (length t)"
    by (rule grown_pending[OF inv n refl]) simp_all
  from n have "0 < length t" by (cases t) auto
  from grown_nth(1)[OF n this, of ?N ?new] have v: "visits (?t1 ! 0) = visits (t ! 0)" by simp
  from e p v show ?thesis by simp
qed

section \<open>One iteration and the main loop\<close>

lemma search_inv_pending:
  assumes "search_inv t" "x < length t" "0 < x"
  shows "pending t x"
proof -
  from search_invD(4)[OF assms] have "child_visits t x \<le> visits (t ! x)" by simp
  with assms search_invD[OF assms(1)] show ?thesis unfolding pending_def by simp
qed

lemma simulate_once_inv:
  assumes inv: "search_inv t" and w: "wf_state rs"
  shows "\<exists>t' k'. simulate_once fl C rnd rs (t, k) = Some (Inr (t', k')) \<and> search_inv t'
           \<and> visits (t' ! 0) = visits (t ! 0) + 1 \<and> length t' \<le> length t + 1"
proof -
  note sh = search_invD(1)[OF inv]
  from selection_terminates[OF inv tree_shapeD(1)[OF sh], of "copy rs" fl C] w
  obtain node st where sel: "selection fl C t 0 (copy rs) = Some (Inr (node, st))"
    and nl: "node < length t" and wst: "wf_state st"
    and stop: "\<not> (untried_moves (t ! node) = [] \<and> children (t ! node) \<noteq> [])" by auto
  show ?thesis
  proof (cases "untried_moves (t ! node) = []")
    case True
    with stop have "children (t ! node) = []" by simp
    with True search_invD(2)[OF inv] have "0 < node" by (cases "node = 0") (auto simp: root_live_def)
    from True have ex: "expansion rnd t node st k = Inr (t, node, st, k)"
      by (simp add: expansion_def)
    from rollout_terminates[OF wst, of rnd k] obtain st2 k2 where
      ro: "rollout rnd st k = Some (st2, k2)" by blast
    from backpropagate_pending[OF search_inv_pending[OF inv nl \<open>0 < node\<close>],
        of "fst (check_winstate st2)"]
    obtain t2 where "backpropagate t (Some node) (fst (check_winstate st2)) = Some t2"
      "search_inv t2" "visits (t2 ! 0) = visits (t ! 0) + 1" "length t2 = length t" by blast
    with sel ex ro show ?thesis by (simp add: simulate_once_def descend_def)
  next
    case False
    let ?st1 = "snd (make_move st (choice rnd k (untried_moves (t ! node))))"
    from expansion_pending[OF inv nl False, of rnd st k] obtain t1 where
      ex: "expansion rnd t node st k = Inr (t1, length t, ?st1, k + 1)"
      and pe: "pending t1 (length t)" and v1: "visits (t1 ! 0) = visits (t ! 0)"
      and l1: "length t1 = length t + 1" by blast
    from rollout_terminates[OF make_move_preserves_wf[OF wst], of rnd _ "k + 1"] obtain st2 k2 where
      ro: "rollout rnd ?st1 (k + 1) = Some (st2, k2)" by blast
    from backpropagate_pending[OF pe, of "fst (check_winstate st2)"]
    obtain t2 where "backpropagate t1 (Some (length t)) (fst (check_winstate st2)) = Some t2"
      "search_inv t2" "visits (t2 ! 0) = visits (t1 ! 0) + 1" "length t2 = length t1" by blast
    with sel ex ro v1 l1 show ?thesis by (simp add: simulate_once_def descend_def)
  qed
qed

lemma mcts_loop_inv:
  assumes w: "wf_state rs"
  shows "search_inv t \<Longrightarrow>
         \<exists>t' k'. mcts_loop fl n C rnd rs (t, k) = Some (Inr (t', k')) \<and> search_inv t'
           \<and> visits (t' ! 0) = visits (t ! 0) + n \<and> length t' \<le> length t + n"
proof (induction n arbitrary: t k)
  case 0
  then show ?case by simp
next
  case (Suc n)
  from simulate_once_inv[OF Suc.prems w, of fl C rnd k] obtain t1 k1 where
    s: "simulate_once fl C rnd rs (t, k) = Some (Inr (t1, k1))" "search_inv t1"
       "visits (t1 ! 0) = visits (t ! 0) + 1" "length t1 \<le> length t + 1" by blast
  from Suc.IH[OF s(2), of k1] obtain t' k' where
    "mcts_loop fl n C rnd rs (t1, k1) = Some (Inr (t', k'))" "search_inv t'"
    "visits (t' ! 0) = visits (t1 ! 0) + n" "length t' \<le> length t1 + n" by blast
  with s show ?case by simp
qed

lemma search_inv_root:
  assumes "parent r = None" "children r = []" "visits r = 0" "untried_moves r \<noteq> []"
  shows "search_inv [r]"
  using assms by (simp add: search_inv_def tree_shape_def root_live_def child_visits_def)

lemma pre_search_Search_node:
  assumes "fst (pre_search s) = Search"
  shows "parent (fst (snd (pre_search s))) = None \<and> children (fst (snd (pre_search s))) = []
       \<and> visits (fst (snd (pre_search s))) = 0 \<and> untried_moves (fst (snd (pre_search s))) \<noteq> []"
proof -
  let ?r = "MCTSNode_init (copy s) None None"
  have early: "\<not> (untried_moves ?r = [] \<or> length (untried_moves ?r) = 1)"
  proof
    assume "untried_moves ?r = [] \<or> length (untried_moves ?r) = 1"
    then have "fst (pre_search s) \<noteq> Search" by (auto simp: pre_search_def Let_def)
    with assms show False by simp
  qed
  obtain legal rs1 where g: "get_available_moves s None = (legal, rs1)"
    by (cases "get_available_moves s None")
  obtain safe rs2 where b: "block_check rs1 (other_player rs1) [] legal = (safe, rs2)"
    by (cases "block_check rs1 (other_player rs1) [] legal")
  let ?find = "find (\<lambda>mv. check_win_on_board (simulate_move rs1 mv None None)
                               = Some (current_player rs1)) legal"
  let ?common = "filter (\<lambda>m. m \<in> set safe) (untried_moves ?r)"
  have f: "?find = None"
  proof (cases ?find)
    case (Some mv)
    with early g have "fst (pre_search s) \<noteq> Search" by (simp add: pre_search_def Let_def)
    with assms show ?thesis by simp
  qed simp
  with early g b have r: "fst (snd (pre_search s))
      = (if safe \<noteq> [] \<and> ?common \<noteq> [] then ?r\<lparr>untried_moves := ?common\<rparr> else ?r)"
    by (simp add: pre_search_def Let_def)
  from r early show ?thesis by simp
qed

lemma pre_search_Search_root:
  "fst (pre_search s) = Search \<Longrightarrow> search_inv [fst (snd (pre_search s))]"
  using pre_search_Search_node[of s] by (intro search_inv_root) simp_all

lemma sum_list_ge_length:
  "\<forall>c\<in>set cs. 1 \<le> f c \<Longrightarrow> length cs \<le> sum_list (map f cs)"
  by (induction cs) (auto simp: Suc_le_eq add_strict_increasing2 intro: add_mono)

lemma search_inv_children_le_visits:
  assumes inv: "search_inv t" and i: "i < length t"
  shows "length (children (t ! i)) \<le> visits (t ! i)"
proof -
  note sh = search_invD(1)[OF inv]
  have "\<forall>c\<in>set (children (t ! i)). 1 \<le> visits (t ! c)"
  proof
    fix c assume c: "c \<in> set (children (t ! i))"
    from child_above[OF sh i c] have "0 < c" by simp
    from search_invD(4)[OF inv tree_shapeD(5)[OF sh i c] this] show "1 \<le> visits (t ! c)" by simp
  qed
  from sum_list_ge_length[OF this] have le: "length (children (t ! i)) \<le> child_visits t i"
    by (simp add: child_visits_def)
  show ?thesis
  proof (cases "i = 0")
    case True
    with search_invD(3)[OF inv] le show ?thesis by simp
  next
    case False
    with search_invD(4)[OF inv i] have "child_visits t i < visits (t ! i)" by simp
    with le show ?thesis by simp
  qed
qed



section \<open>The effect of one iteration on the store\<close>

text \<open>
  What backpropagation does to the store: links stay, the start node and its parent gain
  one visit, and no node of a greater address than the start node is touched.
\<close>

lemma backpropagate_effect:
  "pending t x \<Longrightarrow> backpropagate t (Some x) w = Some t' \<Longrightarrow>
   (\<forall>i. parent (t' ! i) = parent (t ! i) \<and> children (t' ! i) = children (t ! i)
        \<and> untried_moves (t' ! i) = untried_moves (t ! i) \<and> move (t' ! i) = move (t ! i))
   \<and> visits (t' ! x) = visits (t ! x) + 1
   \<and> (\<forall>i. x < i \<longrightarrow> visits (t' ! i) = visits (t ! i))
   \<and> (\<forall>p. parent (t ! x) = Some p \<longrightarrow> visits (t' ! p) = visits (t ! p) + 1)"
proof (induction x arbitrary: t rule: less_induct)
  case (less x)
  note xl = pendingD(3)[OF less.prems(1)]
  note sh = pendingD(1)[OF less.prems(1)]
  show ?case
  proof (cases "x = 0")
    case True
    with less.prems have p0: "pending t 0" by simp
    from backpropagate_root(1)[OF p0, of w] less.prems(2) True
    have t': "t' = t[0 := update (t ! 0) (credit (t ! 0) w)]" by simp
    from xl True have "0 < length t" by simp
    with True tree_shapeD(2)[OF sh] show ?thesis unfolding t' by simp
  next
    case False
    from tree_shapeD(3)[OF sh xl] False obtain p where p: "p < x" "parent (t ! x) = Some p" by auto
    let ?t = "t[x := update (t ! x) (credit (t ! x) w)]"
    from backpropagate_step[OF less.prems(1) _ p(2)] False have pe: "pending ?t p" by simp
    have "backpropagate t (Some x) w = backpropagate ?t (Some p) w"
      by (subst backpropagate.simps) (simp add: p(2))
    with less.prems(2) have b: "backpropagate ?t (Some p) w = Some t'" by simp
    from less.IH[OF p(1) pe b]
    have links: "\<forall>i. parent (t' ! i) = parent (?t ! i) \<and> children (t' ! i) = children (?t ! i)
        \<and> untried_moves (t' ! i) = untried_moves (?t ! i) \<and> move (t' ! i) = move (?t ! i)"
      and vp: "visits (t' ! p) = visits (?t ! p) + 1"
      and above: "\<forall>i. p < i \<longrightarrow> visits (t' ! i) = visits (?t ! i)" by blast+
    from links have l: "\<forall>i. parent (t' ! i) = parent (t ! i) \<and> children (t' ! i) = children (t ! i)
        \<and> untried_moves (t' ! i) = untried_moves (t ! i) \<and> move (t' ! i) = move (t ! i)"
      by simp
    from above p(1) xl have vx: "visits (t' ! x) = visits (t ! x) + 1" by simp
    have ab: "\<forall>i. x < i \<longrightarrow> visits (t' ! i) = visits (t ! i)"
    proof (intro allI impI)
      fix i assume "x < i"
      with p(1) above have "visits (t' ! i) = visits (?t ! i)" by simp
      with \<open>x < i\<close> show "visits (t' ! i) = visits (t ! i)" by simp
    qed
    from vp p(1) have "visits (t' ! p) = visits (t ! p) + 1" by simp
    with p(2) have pp: "\<forall>q. parent (t ! x) = Some q \<longrightarrow> visits (t' ! q) = visits (t ! q) + 1"
      by simp
    from l vx ab pp show ?thesis by blast
  qed
qed

text \<open>What expansion does to the store.\<close>

lemma expansion_effect:
  assumes inv: "search_inv t" and n: "n < length t" and u: "untried_moves (t ! n) \<noteq> []"
  shows "\<exists>t1. expansion rnd t n st k
                = Inr (t1, length t, snd (make_move st (choice rnd k (untried_moves (t ! n)))), k + 1)
            \<and> pending t1 (length t) \<and> visits (t1 ! 0) = visits (t ! 0)
            \<and> length t1 = length t + 1
            \<and> (\<forall>i<length t. visits (t1 ! i) = visits (t ! i)
                  \<and> children (t1 ! i)
                     = (if i = n then children (t ! n) @ [length t] else children (t ! i))
                  \<and> untried_moves (t1 ! i)
                     = (if i = n then remove1 (choice rnd k (untried_moves (t ! n)))
                                         (untried_moves (t ! n))
                        else untried_moves (t ! i)))
            \<and> parent (t1 ! length t) = Some n \<and> children (t1 ! length t) = []
            \<and> visits (t1 ! length t) = 0
            \<and> move (t1 ! length t) = Some (choice rnd k (untried_moves (t ! n)))"
proof -
  let ?m = "choice rnd k (untried_moves (t ! n))"
  let ?st = "snd (make_move st ?m)"
  let ?N = "(t ! n)\<lparr>untried_moves := remove1 ?m (untried_moves (t ! n)),
                     children := children (t ! n) @ [length t]\<rparr>"
  let ?new = "MCTSNode_init (copy ?st) (Some n) (Some ?m)"
  let ?t1 = "t[n := ?N] @ [?new]"
  from choice_mem[OF u] have "?m \<in> set (untried_moves (t ! n))" .
  from add_child_Inr[OF this] u
  have e: "expansion rnd t n st k = Inr (?t1, length t, ?st, k + 1)"
    by (simp add: expansion_def Let_def)
  have p: "pending ?t1 (length t)"
    by (rule grown_pending[OF inv n refl]) simp_all
  from n have "0 < length t" by (cases t) auto
  from grown_nth(1)[OF n this, of ?N ?new] have v: "visits (?t1 ! 0) = visits (t ! 0)" by simp
  have old: "\<forall>i<length t. visits (?t1 ! i) = visits (t ! i)
                  \<and> children (?t1 ! i)
                     = (if i = n then children (t ! n) @ [length t] else children (t ! i))
                  \<and> untried_moves (?t1 ! i)
                     = (if i = n then remove1 ?m (untried_moves (t ! n)) else untried_moves (t ! i))"
  proof (intro allI impI)
    fix i assume "i < length t"
    from grown_nth(1)[OF n this, of ?N ?new]
    show "visits (?t1 ! i) = visits (t ! i)
                  \<and> children (?t1 ! i)
                     = (if i = n then children (t ! n) @ [length t] else children (t ! i))
                  \<and> untried_moves (?t1 ! i)
                     = (if i = n then remove1 ?m (untried_moves (t ! n)) else untried_moves (t ! i))"
      by simp
  qed
  from grown_nth(2)[OF n, of ?N ?new]
  have new: "parent (?t1 ! length t) = Some n" "children (?t1 ! length t) = []"
    "visits (?t1 ! length t) = 0" "move (?t1 ! length t) = Some ?m" by simp_all
  from e p v old new show ?thesis by (intro exI[of _ ?t1]) simp
qed


text \<open>
  One iteration, in full: selection stops at a node; when that node has an untried move,
  exactly one node is appended to the store as its last child, and backpropagation visits
  both; otherwise the store keeps its nodes and links.
\<close>

lemma simulate_once_step:
  assumes inv: "search_inv t" and w: "wf_state rs"
  shows "\<exists>node st t' k'. selection fl C t 0 (copy rs) = Some (Inr (node, st)) \<and> node < length t
           \<and> simulate_once fl C rnd rs (t, k) = Some (Inr (t', k'))
           \<and> (if untried_moves (t ! node) = []
               then length t' = length t \<and> (\<forall>i<length t. children (t' ! i) = children (t ! i))
               else length t' = length t + 1
                  \<and> children (t' ! node) = children (t ! node) @ [length t]
                  \<and> (\<forall>i<length t. i \<noteq> node \<longrightarrow> children (t' ! i) = children (t ! i))
                  \<and> parent (t' ! length t) = Some node \<and> children (t' ! length t) = []
                  \<and> visits (t' ! node) = visits (t ! node) + 1
                  \<and> visits (t' ! length t) = 1)"
proof -
  note sh = search_invD(1)[OF inv]
  from selection_terminates[OF inv tree_shapeD(1)[OF sh], of "copy rs" fl C] w
  obtain node st where sel: "selection fl C t 0 (copy rs) = Some (Inr (node, st))"
    and nl: "node < length t" and wst: "wf_state st"
    and stop: "\<not> (untried_moves (t ! node) = [] \<and> children (t ! node) \<noteq> [])" by auto
  show ?thesis
  proof (cases "untried_moves (t ! node) = []")
    case True
    with stop have "children (t ! node) = []" by simp
    with True search_invD(2)[OF inv] have "0 < node" by (cases "node = 0") (auto simp: root_live_def)
    from True have ex: "expansion rnd t node st k = Inr (t, node, st, k)"
      by (simp add: expansion_def)
    from rollout_terminates[OF wst, of rnd k] obtain st2 k2 where
      ro: "rollout rnd st k = Some (st2, k2)" by blast
    note pe = search_inv_pending[OF inv nl \<open>0 < node\<close>]
    from backpropagate_pending[OF pe, of "fst (check_winstate st2)"]
    obtain t2 where b: "backpropagate t (Some node) (fst (check_winstate st2)) = Some t2"
      and l2: "length t2 = length t" by blast
    from backpropagate_effect[OF pe b] have "\<forall>i. children (t2 ! i) = children (t ! i)" by blast
    with sel nl ex ro b l2 True show ?thesis by (simp add: simulate_once_def descend_def)
  next
    case False
    let ?st1 = "snd (make_move st (choice rnd k (untried_moves (t ! node))))"
    from expansion_effect[OF inv nl False, of rnd st k] obtain t1 where
      ex: "expansion rnd t node st k = Inr (t1, length t, ?st1, k + 1)"
      and pe: "pending t1 (length t)"
      and l1: "length t1 = length t + 1"
      and old: "\<forall>i<length t. visits (t1 ! i) = visits (t ! i)
                  \<and> children (t1 ! i)
                     = (if i = node then children (t ! node) @ [length t] else children (t ! i))"
      and new: "parent (t1 ! length t) = Some node" "children (t1 ! length t) = []"
               "visits (t1 ! length t) = 0" by blast
    from rollout_terminates[OF make_move_preserves_wf[OF wst], of rnd _ "k + 1"] obtain st2 k2 where
      ro: "rollout rnd ?st1 (k + 1) = Some (st2, k2)" by blast
    from backpropagate_pending[OF pe, of "fst (check_winstate st2)"]
    obtain t2 where b: "backpropagate t1 (Some (length t)) (fst (check_winstate st2)) = Some t2"
      and l2: "length t2 = length t1" by blast
    from backpropagate_effect[OF pe b]
    have links: "\<forall>i. parent (t2 ! i) = parent (t1 ! i) \<and> children (t2 ! i) = children (t1 ! i)"
      and vx: "visits (t2 ! length t) = visits (t1 ! length t) + 1"
      and vp: "\<forall>p. parent (t1 ! length t) = Some p \<longrightarrow> visits (t2 ! p) = visits (t1 ! p) + 1"
      by blast+
    from vp new(1) old nl have vn: "visits (t2 ! node) = visits (t ! node) + 1" by simp
    from links old nl have c1: "children (t2 ! node) = children (t ! node) @ [length t]" by simp
    from links old have c2: "\<forall>i<length t. i \<noteq> node \<longrightarrow> children (t2 ! i) = children (t ! i)"
      by simp
    from links new vx have n2: "parent (t2 ! length t) = Some node" "children (t2 ! length t) = []"
      "visits (t2 ! length t) = 1" by simp_all
    from sel ex ro b have "simulate_once fl C rnd rs (t, k) = Some (Inr (t2, k2))"
      by (simp add: simulate_once_def descend_def)
    with sel nl False l1 l2 vn c1 c2 n2 show ?thesis by simp
  qed
qed

text \<open>The loop of \<open>n + 1\<close> iterations is the loop of \<open>n\<close> iterations followed by one more.\<close>

lemma mcts_loop_Suc:
  "mcts_loop fl (Suc n) C rnd rs tk =
     (case mcts_loop fl n C rnd rs tk of
        None \<Rightarrow> None
      | Some (Inl e) \<Rightarrow> Some (Inl e)
      | Some (Inr tk') \<Rightarrow> simulate_once fl C rnd rs tk')"
proof (induction n arbitrary: tk)
  case 0
  show ?case by (simp split: option.splits sum.splits)
next
  case (Suc n)
  show ?case
  proof (cases "simulate_once fl C rnd rs tk")
    case None
    then show ?thesis by simp
  next
    case (Some r)
    show ?thesis
    proof (cases r)
      case (Inl e)
      with Some show ?thesis by simp
    next
      case (Inr tk1)
      have "mcts_loop fl (Suc (Suc n)) C rnd rs tk = mcts_loop fl (Suc n) C rnd rs tk1"
        using Some Inr by simp
      also have "\<dots> = (case mcts_loop fl n C rnd rs tk1 of
                         None \<Rightarrow> None
                       | Some (Inl e) \<Rightarrow> Some (Inl e)
                       | Some (Inr tk') \<Rightarrow> simulate_once fl C rnd rs tk')"
        by (rule Suc.IH)
      also have "mcts_loop fl n C rnd rs tk1 = mcts_loop fl (Suc n) C rnd rs tk"
        using Some Inr by simp
      finally show ?thesis .
    qed
  qed
qed


section \<open>Results on get_best_move\<close>

lemma get_best_move_Search:
  assumes "fst (pre_search s) = Search"
    and "mcts_loop fl (simulations self) (exploration_constant self) rnd (snd (snd (pre_search s)))
           ([fst (snd (pre_search s))], 0) = Some (Inr (t, k))"
  shows "get_best_move fl self rnd s = Some (most_visited t, snd (snd (pre_search s)))"
  using assms by (cases "pre_search s") (auto simp: get_best_move_def)

lemma search_loop_runs:
  assumes w: "wf_state s" and se: "fst (pre_search s) = Search"
  shows "\<exists>t k. mcts_loop fl n C rnd (snd (snd (pre_search s))) ([fst (snd (pre_search s))], 0)
                 = Some (Inr (t, k))
           \<and> search_inv t \<and> visits (t ! 0) = n \<and> length t \<le> n + 1"
proof -
  from w have "wf_state (snd (snd (pre_search s)))" by (simp add: pre_search_root_state)
  from mcts_loop_inv[OF this pre_search_Search_root[OF se], of fl n C rnd 0]
  obtain t k where "mcts_loop fl n C rnd (snd (snd (pre_search s))) ([fst (snd (pre_search s))], 0)
                 = Some (Inr (t, k))" "search_inv t"
    "visits (t ! 0) = visits ([fst (snd (pre_search s))] ! 0) + n" "length t \<le> 1 + n" by auto
  moreover have "visits (fst (snd (pre_search s))) = 0"
    using pre_search_Search_node[OF se] by simp
  ultimately show ?thesis by auto
qed

text \<open>
  The main loop is entered exactly on a root state without a winning line, with at least
  two open columns, none of which wins immediately.
\<close>

lemma pre_search_Search_iff:
  assumes w: "wf_state s"
  shows "fst (pre_search s) = Search \<longleftrightarrow>
           \<not> winning_line (board s) \<and> 2 \<le> length (open_columns (board s))
           \<and> find (immediate_win s) (open_columns (board s)) = None"
proof -
  consider (T) "winning_line (board s) \<or> open_columns (board s) = []"
    | (S) m where "\<not> winning_line (board s)" "open_columns (board s) = [m]"
    | (M) "\<not> winning_line (board s)" "2 \<le> length (open_columns (board s))"
    by (cases "open_columns (board s)"; cases "tl (open_columns (board s))") auto
  then show ?thesis
  proof cases
    case T
    then show ?thesis by (auto simp: pre_search_terminal[OF w])
  next
    case S
    then show ?thesis by (simp add: pre_search_single[OF w])
  next
    case M
    then show ?thesis by (simp add: pre_search_several[OF w] split: option.splits)
  qed
qed

text \<open>
  Claim C8. Whenever \<open>get_best_move\<close> enters its main loop, after any number \<open>n\<close> of iterations
  (so also when it returns) every node of the tree has at least as many visits as children,
  and the tree has at most \<open>n + 1\<close> nodes. The next iteration runs as follows: selection stops
  at a node of the tree; if that node has an untried move, exactly one node is created, as
  the last child of that node and with no child of its own, no other node gains or loses a
  child, and backpropagation visits both the new node and the node it was created from in
  this same iteration; if it has none, no node is created and no list of children changes.
  The invariant holds again after that iteration.
\<close>

theorem visits_cover_children:
  assumes "wf_state s" and "fst (pre_search s) = Search"
  shows "\<exists>t k node st t' k'.
           mcts_loop fl n C rnd (snd (snd (pre_search s))) ([fst (snd (pre_search s))], 0)
             = Some (Inr (t, k))
           \<and> (\<forall>i<length t. length (children (t ! i)) \<le> visits (t ! i))
           \<and> length t \<le> n + 1
           \<and> selection fl C t 0 (copy (snd (snd (pre_search s)))) = Some (Inr (node, st))
           \<and> node < length t
           \<and> mcts_loop fl (Suc n) C rnd (snd (snd (pre_search s))) ([fst (snd (pre_search s))], 0)
               = Some (Inr (t', k'))
           \<and> (\<forall>i<length t'. length (children (t' ! i)) \<le> visits (t' ! i))
           \<and> (if untried_moves (t ! node) = []
               then length t' = length t \<and> (\<forall>i<length t. children (t' ! i) = children (t ! i))
               else length t' = length t + 1
                  \<and> children (t' ! node) = children (t ! node) @ [length t]
                  \<and> (\<forall>i<length t. i \<noteq> node \<longrightarrow> children (t' ! i) = children (t ! i))
                  \<and> parent (t' ! length t) = Some node \<and> children (t' ! length t) = []
                  \<and> visits (t' ! node) = visits (t ! node) + 1
                  \<and> visits (t' ! length t) = 1)"
proof -
  let ?rs = "snd (snd (pre_search s))" and ?r = "fst (snd (pre_search s))"
  from assms(1) have w: "wf_state ?rs" by (simp add: pre_search_root_state)
  from search_loop_runs[OF assms, of fl n C rnd] obtain t k where
    l: "mcts_loop fl n C rnd ?rs ([?r], 0) = Some (Inr (t, k))"
    and inv: "search_inv t" and len: "length t \<le> n + 1" by blast
  from search_inv_children_le_visits[OF inv]
  have c: "\<forall>i<length t. length (children (t ! i)) \<le> visits (t ! i)" by blast
  from simulate_once_step[OF inv w, of fl C rnd k] obtain node st t' k' where
    sel: "selection fl C t 0 (copy ?rs) = Some (Inr (node, st))" "node < length t"
    and so: "simulate_once fl C rnd ?rs (t, k) = Some (Inr (t', k'))"
    and eff: "if untried_moves (t ! node) = []
               then length t' = length t \<and> (\<forall>i<length t. children (t' ! i) = children (t ! i))
               else length t' = length t + 1
                  \<and> children (t' ! node) = children (t ! node) @ [length t]
                  \<and> (\<forall>i<length t. i \<noteq> node \<longrightarrow> children (t' ! i) = children (t ! i))
                  \<and> parent (t' ! length t) = Some node \<and> children (t' ! length t) = []
                  \<and> visits (t' ! node) = visits (t ! node) + 1
                  \<and> visits (t' ! length t) = 1" by blast
  from l so have l': "mcts_loop fl (Suc n) C rnd ?rs ([?r], 0) = Some (Inr (t', k'))"
    by (simp add: mcts_loop_Suc del: mcts_loop.simps)
  from search_loop_runs[OF assms, of fl "Suc n" C rnd] l' have "search_inv t'" by auto
  from search_inv_children_le_visits[OF this]
  have c': "\<forall>i<length t'. length (children (t' ! i)) \<le> visits (t' ! i)" by blast
  from l c len sel l' c' eff show ?thesis by blast
qed

theorem visits_cover_children_witness:
  "\<forall>fl. wf_state block_root \<and> fst (pre_search block_root) = Search
     \<and> (\<exists>t' k'. mcts_loop fl 1 (fl_num fl 1) (\<lambda>j. j) (snd (snd (pre_search block_root)))
                  ([fst (snd (pre_search block_root))], 0) = Some (Inr (t', k'))
            \<and> length t' = 2 \<and> children (t' ! 0) = [1] \<and> visits (t' ! 0) = 1
            \<and> parent (t' ! 1) = Some 0 \<and> children (t' ! 1) = [] \<and> visits (t' ! 1) = 1
            \<and> length (children (t' ! 0)) \<le> visits (t' ! 0)
            \<and> length (children (t' ! 1)) \<le> visits (t' ! 1))"
proof
  fix fl :: "'f pyfloat"
  let ?rs = "snd (snd (pre_search block_root))" and ?r = "fst (snd (pre_search block_root))"
  from pre_search_Search_node[OF block_root_search]
  have r: "children ?r = []" "visits ?r = 0" "untried_moves ?r \<noteq> []" by simp_all
  from visits_cover_children[OF block_root_wf block_root_search, of fl 0 "fl_num fl 1" "\<lambda>j. j"]
  obtain t k node st t' k' where
    l: "mcts_loop fl 0 (fl_num fl 1) (\<lambda>j. j) ?rs ([?r], 0) = Some (Inr (t, k))"
    and nl: "node < length t"
    and l': "mcts_loop fl (Suc 0) (fl_num fl 1) (\<lambda>j. j) ?rs ([?r], 0) = Some (Inr (t', k'))"
    and eff: "if untried_moves (t ! node) = []
               then length t' = length t \<and> (\<forall>i<length t. children (t' ! i) = children (t ! i))
               else length t' = length t + 1
                  \<and> children (t' ! node) = children (t ! node) @ [length t]
                  \<and> (\<forall>i<length t. i \<noteq> node \<longrightarrow> children (t' ! i) = children (t ! i))
                  \<and> parent (t' ! length t) = Some node \<and> children (t' ! length t) = []
                  \<and> visits (t' ! node) = visits (t ! node) + 1
                  \<and> visits (t' ! length t) = 1" by blast
  from l have t: "t = [?r]" by simp
  with nl have n0: "node = 0" by simp
  from eff r have "length t' = 2 \<and> children (t' ! 0) = [1] \<and> visits (t' ! 0) = 1
            \<and> parent (t' ! 1) = Some 0 \<and> children (t' ! 1) = [] \<and> visits (t' ! 1) = 1"
    unfolding t n0 by simp
  with l' block_root_wf block_root_search
  show "wf_state block_root \<and> fst (pre_search block_root) = Search
     \<and> (\<exists>t' k'. mcts_loop fl 1 (fl_num fl 1) (\<lambda>j. j) ?rs ([?r], 0) = Some (Inr (t', k'))
            \<and> length t' = 2 \<and> children (t' ! 0) = [1] \<and> visits (t' ! 0) = 1
            \<and> parent (t' ! 1) = Some 0 \<and> children (t' ! 1) = [] \<and> visits (t' ! 1) = 1
            \<and> length (children (t' ! 0)) \<le> visits (t' ! 0)
            \<and> length (children (t' ! 1)) \<le> visits (t' ! 1))"
    by (intro conjI exI[of _ t'] exI[of _ k']) simp_all
qed

text \<open>
  Claim C10. Whenever the main loop of \<open>get_best_move\<close> runs, after \<open>N\<close> iterations the
  root has \<open>N\<close> visits and its children have \<open>N\<close> visits together (so each iteration adds one
  to the root and one to the sum over its children); with \<open>N\<close> at least 1 the root has a
  child, and the value returned is the move of one of the root's children.
\<close>

theorem simulation_loop_counts:
  assumes "wf_state s" and "fst (pre_search s) = Search"
  shows "\<exists>t k. mcts_loop fl N C rnd (snd (snd (pre_search s))) ([fst (snd (pre_search s))], 0)
                 = Some (Inr (t, k))
           \<and> visits (t ! 0) = N \<and> child_visits t 0 = N
           \<and> (1 \<le> N \<longrightarrow> children (t ! 0) \<noteq> []
                 \<and> (\<exists>c\<in>set (children (t ! 0)). most_visited t = Inr (move (t ! c)))
                 \<and> (simulations self = N \<and> exploration_constant self = C \<longrightarrow>
                      get_best_move fl self rnd s = Some (most_visited t, s)))"
proof -
  from search_loop_runs[OF assms, of fl N C rnd] obtain t k where
    l: "mcts_loop fl N C rnd (snd (snd (pre_search s))) ([fst (snd (pre_search s))], 0)
          = Some (Inr (t, k))" and inv: "search_inv t" and v: "visits (t ! 0) = N" by blast
  from search_invD(3)[OF inv] v have cv: "child_visits t 0 = N" by simp
  have "children (t ! 0) \<noteq> []
        \<and> (\<exists>c\<in>set (children (t ! 0)). most_visited t = Inr (move (t ! c)))
        \<and> (simulations self = N \<and> exploration_constant self = C \<longrightarrow>
              get_best_move fl self rnd s = Some (most_visited t, s))" if "1 \<le> N"
  proof -
    from cv that have ne: "children (t ! 0) \<noteq> []" by (auto simp: child_visits_def)
    let ?s = "sort_key (\<lambda>c. visits (t ! c)) (children (t ! 0))"
    from ne have "?s \<noteq> []" by (metis length_sort length_0_conv)
    then have "most_visited t = Inr (move (t ! last ?s))"
      by (cases ?s) (auto simp: most_visited_def)
    with last_sort_key(1)[OF ne, of "\<lambda>c. visits (t ! c)"]
    have m: "\<exists>c\<in>set (children (t ! 0)). most_visited t = Inr (move (t ! c))" by blast
    have "get_best_move fl self rnd s = Some (most_visited t, s)"
      if "simulations self = N \<and> exploration_constant self = C"
      using get_best_move_Search[OF assms(2), of fl self rnd t k] l that
      by (simp add: pre_search_root_state[OF assms(1)])
    with ne m show ?thesis by blast
  qed
  with l v cv show ?thesis by blast
qed

theorem simulation_loop_counts_witness:
  "\<forall>fl. wf_state block_root \<and> fst (pre_search block_root) = Search
     \<and> (\<exists>t k. mcts_loop fl 5 (fl_num fl 1) (\<lambda>j. j) (snd (snd (pre_search block_root)))
                ([fst (snd (pre_search block_root))], 0) = Some (Inr (t, k))
          \<and> visits (t ! 0) = 5 \<and> child_visits t 0 = 5 \<and> children (t ! 0) \<noteq> []
          \<and> get_best_move fl \<lparr>simulations = 5, exploration_constant = fl_num fl 1\<rparr> (\<lambda>j. j)
               block_root
               = Some (most_visited t, block_root))"
proof
  fix fl :: "'f pyfloat"
  from simulation_loop_counts[OF block_root_wf block_root_search,
      of fl 5 "fl_num fl 1" "\<lambda>j. j" "\<lparr>simulations = 5, exploration_constant = fl_num fl 1\<rparr>"]
  obtain t k where "mcts_loop fl 5 (fl_num fl 1) (\<lambda>j. j) (snd (snd (pre_search block_root)))
                ([fst (snd (pre_search block_root))], 0) = Some (Inr (t, k))"
    "visits (t ! 0) = 5" "child_visits t 0 = 5" "children (t ! 0) \<noteq> []"
    "get_best_move fl \<lparr>simulations = 5, exploration_constant = fl_num fl 1\<rparr> (\<lambda>j. j) block_root
               = Some (most_visited t, block_root)" by auto
  with block_root_wf block_root_search
  show "wf_state block_root \<and> fst (pre_search block_root) = Search
     \<and> (\<exists>t k. mcts_loop fl 5 (fl_num fl 1) (\<lambda>j. j) (snd (snd (pre_search block_root)))
                ([fst (snd (pre_search block_root))], 0) = Some (Inr (t, k))
          \<and> visits (t ! 0) = 5 \<and> child_visits t 0 = 5 \<and> children (t ! 0) \<noteq> []
          \<and> get_best_move fl \<lparr>simulations = 5, exploration_constant = fl_num fl 1\<rparr> (\<lambda>j. j)
               block_root
               = Some (most_visited t, block_root))" by blast
qed

text \<open>
  Claim C6. \<open>get_best_move\<close> returns (the main loop and its inner loops terminate) and the
  root state object is, field by field, what it was before the call.
\<close>

theorem get_best_move_preserves_root:
  assumes "wf_state s"
  shows "\<exists>r. get_best_move fl self rnd s = Some (r, s)"
proof (cases "fst (pre_search s)")
  case (Return r)
  then show ?thesis
    using pre_search_root_state[OF assms]
    by (cases "pre_search s") (auto simp: get_best_move_def)
next
  case Search
  from search_loop_runs[OF assms Search, of fl "simulations self" "exploration_constant self" rnd]
  obtain t k where "mcts_loop fl (simulations self) (exploration_constant self) rnd
      (snd (snd (pre_search s))) ([fst (snd (pre_search s))], 0) = Some (Inr (t, k))" by blast
  from get_best_move_Search[OF Search this] show ?thesis
    by (simp add: pre_search_root_state[OF assms])
qed

theorem get_best_move_preserves_root_witness:
  "\<forall>fl. wf_state block_root
     \<and> (\<exists>r. get_best_move fl \<lparr>simulations = 1000, exploration_constant = fl_num fl 1\<rparr> (\<lambda>j. j)
              block_root
            = Some (r, block_root))"
  using get_best_move_preserves_root[OF block_root_wf] block_root_wf by blast


section \<open>A rollout that moves on a won board\<close>

lemma late_root_reachable:
  "foldl (\<lambda>s m. snd (make_move s m)) Connect4_init late_moves = late_root"
  by code_simp

lemma late_root_trace:
  "fst (pre_search late_root) = Search \<and>
   (case mcts_loop fl 2 (fl_num fl 1) (\<lambda>j. 0) late_root ([fst (snd (pre_search late_root))], 0) of
      Some (Inr (t, k)) \<Rightarrow>
        (case descend fl (fl_num fl 1) (\<lambda>j. 0) late_root (t, k) of
           Some (Inr (t1, node, st1, k1)) \<Rightarrow> node = 3 \<and> st1 = late_won_state \<and> k1 = 6
         | _ \<Rightarrow> False)
    | _ \<Rightarrow> False)"
  by code_simp

lemma late_won_state_rollout:
  "check_win_on_board (board late_won_state) = Some ''R'' \<and> rollout_moves late_won_state
   \<and> make_move late_won_state (choice (\<lambda>j. 0) 6 (open_columns (board late_won_state)))
       = (True, late_won_state\<lparr>board := place (board late_won_state) 0 2 ''Y'',
                                current_turn := 42\<rparr>)
   \<and> rollout (\<lambda>j. 0) late_won_state 6
       = Some (late_won_state\<lparr>board := place (board late_won_state) 0 2 ''Y'',
                               current_turn := 42, game_over := True\<rparr>, 7)"
  by code_simp

text \<open>
  Claim C3 fails on the code. On \<open>late_root\<close>, with budget 3 and every random draw taking
  the first element, the third iteration descends to the node of address 2 and expands the
  move 2, which completes a line of \<open>R\<close> on the working state. Its \<open>game_over\<close> flag is not
  set (the test was made on the node's copy), so the rollout makes one more move, for \<open>Y\<close>,
  on a board that already holds a winning line.
\<close>

theorem rollout_moves_on_won_state:
  "\<exists>t k t1.
     fst (pre_search late_root) = Search
     \<and> mcts_loop fl 2 (fl_num fl 1) (\<lambda>j. 0) late_root ([fst (snd (pre_search late_root))], 0)
         = Some (Inr (t, k))
     \<and> descend fl (fl_num fl 1) (\<lambda>j. 0) late_root (t, k) = Some (Inr (t1, 3, late_won_state, 6))
     \<and> check_win_on_board (board late_won_state) = Some ''R''
     \<and> rollout_moves late_won_state
     \<and> rollout (\<lambda>j. 0) late_won_state 6
         = Some (late_won_state\<lparr>board := place (board late_won_state) 0 2 ''Y'',
                                 current_turn := 42, game_over := True\<rparr>, 7)"
proof -
  from late_root_trace[of fl] have s: "fst (pre_search late_root) = Search" by simp
  from late_root_trace[of fl] obtain t k where
    l: "mcts_loop fl 2 (fl_num fl 1) (\<lambda>j. 0) late_root ([fst (snd (pre_search late_root))], 0)
          = Some (Inr (t, k))"
    and c: "(case descend fl (fl_num fl 1) (\<lambda>j. 0) late_root (t, k) of
               Some (Inr (t1, node, st1, k1)) \<Rightarrow> node = 3 \<and> st1 = late_won_state \<and> k1 = 6
             | _ \<Rightarrow> False)"
    by (auto split: option.splits sum.splits)
  from c obtain r where r: "descend fl (fl_num fl 1) (\<lambda>j. 0) late_root (t, k) = Some (Inr r)"
    by (cases "descend fl (fl_num fl 1) (\<lambda>j. 0) late_root (t, k)") (auto split: sum.splits)
  obtain t1 node st1 k1 where "r = (t1, node, st1, k1)" by (cases r)
  with r c have "descend fl (fl_num fl 1) (\<lambda>j. 0) late_root (t, k)
                   = Some (Inr (t1, 3, late_won_state, 6))" by simp
  with s l late_won_state_rollout show ?thesis by blast
qed

end
